theory Spec2Isabelle
  imports Main "HOL-Library.Word" "HOL-Library.Multiset"
begin

section \<open>Data of the task processor (processor.go)\<close>

text \<open>
  Go's \<open>uint\<close> and \<open>int\<close> are taken at 64 bits, their size on a 64-bit platform. A
  \<open>map[string]uint\<close> is kept as the list of its entries, keys distinct; every \<open>range\<close>
  over the map receives the order in which that iteration visits the entries, since Go
  promises none.
\<close>

type_synonym uint = "64 word"
type_synonym queue_config = "(string \<times> uint) list"

text \<open>The Go \<open>error\<close> interface is kept by its text (\<open>e.Error()\<close>); \<open>None\<close> is \<open>nil\<close>.\<close>

type_synonym error = string
type_synonym payload = "(string \<times> string) list"

record Task =
  Type :: string
  Payload :: payload

text \<open>
  A value handed to \<open>panic\<close> is an \<open>interface{}\<close>: it may be \<open>nil\<close>, an integer, a string
  or an error.
\<close>

datatype panic_value = PNil | PInt int | PString string | PError error

text \<open>One call of \<open>h.ProcessTask(task)\<close> either returns its error result or panics.\<close>

datatype outcome = Returns "error option" | Panics panic_value

type_synonym Handler = "Task \<Rightarrow> outcome"
type_synonym duration = int
type_synonym retryDelayFunc = "int \<Rightarrow> error \<Rightarrow> Task \<Rightarrow> duration"

record processor =
  handler :: Handler
  queueConfig :: queue_config
  orderedQueues :: "string list option"
  retryDelayFunc :: retryDelayFunc
  sema_cap :: nat

section \<open>Queue selector\<close>

record queue =
  name :: string
  priority :: uint

text \<open>\<open>byPriority.Less\<close>, and the order \<open>sort.Reverse\<close> makes of it.\<close>

definition Less :: "queue list \<Rightarrow> nat \<Rightarrow> nat \<Rightarrow> bool" where
  "Less x i j = (priority (x ! i) < priority (x ! j))"

definition reverse_less :: "queue \<Rightarrow> queue \<Rightarrow> bool" where
  "reverse_less a b = Less [a, b] 1 0"

text \<open>
  \<open>sort.Sort\<close> belongs to the standard library: it leaves a permutation ordered by
  \<open>Less\<close> and promises nothing about ties. It is modelled by straight insertion, the
  algorithm the library runs on slices of at most 12 elements: an element moves left while
  it is less than its left neighbour. \<open>insert_left q acc\<close> takes the sorted prefix in
  reverse. On longer slices the library sorts otherwise and is not stable; its result can
  differ from the model's in the order of entries of equal priority only, and every such
  order is what the model returns for some iteration order of the map
  (\<open>sort_Sort_Reverse_sorted\<close> below).
\<close>

fun insert_left :: "queue \<Rightarrow> queue list \<Rightarrow> queue list" where
  "insert_left q [] = [q]"
| "insert_left q (y # ys) =
     (if reverse_less q y then y # insert_left q ys else q # y # ys)"

definition sort_Sort_Reverse :: "queue list \<Rightarrow> queue list" where
  "sort_Sort_Reverse qs = rev (foldl (\<lambda>acc q. insert_left q acc) [] qs)"

definition sortByPriority :: "queue_config \<Rightarrow> string list" where
  "sortByPriority qcfg =
     map name (sort_Sort_Reverse (map (\<lambda>(qname, n). \<lparr>name = qname, priority = n\<rparr>) qcfg))"

text \<open>A slice grown by \<open>append\<close> from a \<open>nil\<close> variable is \<open>nil\<close> until something is appended.\<close>

definition go_slice :: "'a list \<Rightarrow> 'a list option" where
  "go_slice xs = (if xs = [] then None else Some xs)"

text \<open>
  \<open>newProcessor\<close>; \<open>qcfg\<close> is given in the order in which \<open>sortByPriority\<close> iterates over it.
  The default handler fails with "handler not set". The limit \<open>n\<close> is a natural number:
  \<open>make(chan struct{}, n)\<close> panics on a negative one. The channels it makes are in the
  state of the processor below, \<open>sema_cap\<close> is \<open>cap(p.sema)\<close>.
\<close>

definition newProcessor :: "nat \<Rightarrow> queue_config \<Rightarrow> bool \<Rightarrow> retryDelayFunc \<Rightarrow> processor" where
  "newProcessor n qcfg strict fn =
     \<lparr>handler = (\<lambda>t. Returns (Some ''handler not set'')),
      queueConfig = qcfg,
      orderedQueues = (if strict then go_slice (sortByPriority qcfg) else None),
      retryDelayFunc = fn,
      sema_cap = n\<rparr>"

text \<open>
  \<open>uniq\<close>: the loop over \<open>names\<close> with the set \<open>seen\<close> and the result \<open>res\<close>; the test
  \<open>len(res) == l\<close> comes after the element has been handled.
\<close>

fun uniq_loop :: "string list \<Rightarrow> int \<Rightarrow> string set \<Rightarrow> string list \<Rightarrow> string list" where
  "uniq_loop [] l seen res = res"
| "uniq_loop (s # ss) l seen res =
     (let seen' = (if s \<notin> seen then insert s seen else seen);
          res' = (if s \<notin> seen then res @ [s] else res)
      in if int (length res') = l then res' else uniq_loop ss l seen' res')"

definition uniq :: "string list \<Rightarrow> int \<Rightarrow> string list" where
  "uniq names l = uniq_loop names l {} []"

text \<open>
  The replicated list of \<open>queues\<close>: \<open>for i := 0; i < int(priority); i++\<close> appends the name
  as often as the weight read as a signed integer says, so never for a weight from
  \<open>2^63\<close> on.
\<close>

definition names_of :: "queue_config \<Rightarrow> string list" where
  "names_of ord = concat (map (\<lambda>(qname, priority). replicate (nat (sint priority)) qname) ord)"

text \<open>
  \<open>rand.Shuffle\<close> (standard library): for \<open>i\<close> from \<open>n - 1\<close> down to \<open>1\<close> it draws
  \<open>j\<close> in \<open>[0, i]\<close> and swaps positions \<open>i\<close> and \<open>j\<close>. The random source is the function
  \<open>rnd\<close>, whose value at \<open>i\<close> is reduced to that range.
\<close>

definition swap :: "'a list \<Rightarrow> nat \<Rightarrow> nat \<Rightarrow> 'a list" where
  "swap xs i j = xs[i := xs ! j, j := xs ! i]"

fun shuffle_loop :: "(nat \<Rightarrow> nat) \<Rightarrow> nat \<Rightarrow> 'a list \<Rightarrow> 'a list" where
  "shuffle_loop rnd 0 xs = xs"
| "shuffle_loop rnd (Suc i) xs = shuffle_loop rnd i (swap xs (Suc i) (rnd (Suc i) mod Suc (Suc i)))"

definition Shuffle :: "(nat \<Rightarrow> nat) \<Rightarrow> 'a list \<Rightarrow> 'a list" where
  "Shuffle rnd xs = shuffle_loop rnd (length xs - 1) xs"

text \<open>
  \<open>queues\<close>; \<open>ord\<close> is the order in which this call's \<open>range\<close> visits \<open>p.queueConfig\<close>,
  \<open>rnd\<close> the random source of this call.
\<close>

definition queues :: "processor \<Rightarrow> queue_config \<Rightarrow> (nat \<Rightarrow> nat) \<Rightarrow> string list" where
  "queues p ord rnd =
     (case (length (queueConfig p) = 1, ord) of
        (True, (qname, _) # _) \<Rightarrow> [qname]
      | _ \<Rightarrow>
        (case orderedQueues p of
           Some oq \<Rightarrow> oq
         | None \<Rightarrow> uniq (Shuffle rnd (names_of ord)) (int (length (queueConfig p)))))"

text \<open>The spec's words for the third step: deduplicate, keeping each first occurrence.\<close>

fun first_occurrences :: "'a list \<Rightarrow> 'a list" where
  "first_occurrences [] = []"
| "first_occurrences (x # xs) = x # first_occurrences (filter (\<lambda>y. y \<noteq> x) xs)"

section \<open>Handler invocation\<close>

text \<open>
  \<open>fmt.Errorf("panic: %v", x)\<close>: the text \<open>%v\<close> gives for the panic values of the model.
\<close>

definition digit_char :: "nat \<Rightarrow> char" where
  "digit_char d = ''0123456789'' ! d"

function decimal :: "nat \<Rightarrow> string" where
  "decimal n =
     (if n < 10 then [digit_char n]
      else decimal (n div 10) @ [digit_char (n mod 10)])"
  by pat_completeness auto
termination
  by (relation "measure id") auto

definition fmt_int :: "int \<Rightarrow> string" where
  "fmt_int i = (if 0 \<le> i then decimal (nat i) else CHR ''-'' # decimal (nat (- i)))"

fun fmt_v :: "panic_value \<Rightarrow> string" where
  "fmt_v PNil = ''<nil>''"
| "fmt_v (PInt i) = fmt_int i"
| "fmt_v (PString s) = s"
| "fmt_v (PError e) = e"

text \<open>
  \<open>perform\<close>: the deferred function assigns the result only when \<open>recover()\<close> is not
  \<open>nil\<close>. After \<open>panic(nil)\<close> \<open>recover()\<close> returns \<open>nil\<close> (the language before Go 1.21,
  which this code is written in), and the named result keeps its zero value \<open>nil\<close>.
\<close>

definition perform :: "Handler \<Rightarrow> Task \<Rightarrow> error option" where
  "perform h task =
     (case h task of
        Returns err \<Rightarrow> err
      | Panics x \<Rightarrow> (if x \<noteq> PNil then Some (''panic: '' @ fmt_v x) else None))"

section \<open>The store\<close>

text \<open>
  Modelled from the spec: \<open>base.TaskMessage\<close> is declared in \<open>internal/base\<close>, which is
  not among the sources. The fields are those of the spec's data model; \<open>Queue\<close> is the
  source queue the store's operations return a message to. The processor only compares
  \<open>Retried\<close> with \<open>Retry\<close>, so both are integers here.
\<close>

record TaskMessage = Task +
  ID :: string
  Queue :: string
  Retry :: int
  Retried :: int

text \<open>
  Modelled from the spec: \<open>NewTask\<close> is declared elsewhere in the package; a task is the
  view of a message that shows only \<open>Type\<close> and \<open>Payload\<close>.
\<close>

definition NewTask :: "string \<Rightarrow> payload \<Rightarrow> Task" where
  "NewTask typ pl = \<lparr>Type = typ, Payload = pl\<rparr>"

type_synonym time = int

text \<open>
  Modelled from the spec: the client \<open>rdb.RDB\<close> and the store behind it are in
  \<open>internal/rdb\<close>, which is not among the sources. The store holds the active queues, the
  in-progress holding area, the retry bucket and the dead bucket; each operation below
  has the effect the spec's table of the store interface gives it when it succeeds.
\<close>

record store =
  active :: "string \<Rightarrow> TaskMessage list"
  in_progress :: "TaskMessage list"
  retry_bucket :: "(TaskMessage \<times> time \<times> string) list"
  dead_bucket :: "(TaskMessage \<times> string) list"

text \<open>
  Modelled from the spec: \<open>Dequeue\<close> scans the given queues in order and moves the head of
  the first one that is not empty to the in-progress area; with none it reports that
  there is no processable task.
\<close>

fun rdb_Dequeue :: "string list \<Rightarrow> store \<Rightarrow> (TaskMessage \<times> store) option" where
  "rdb_Dequeue [] st = None"
| "rdb_Dequeue (q # qs) st =
     (case active st q of
        [] \<Rightarrow> rdb_Dequeue qs st
      | m # ms \<Rightarrow>
          Some (m, st\<lparr>active := (active st)(q := ms), in_progress := in_progress st @ [m]\<rparr>))"

text \<open>
  Modelled from the spec: \<open>Requeue\<close> moves the message from the in-progress area back to
  the head of its source queue.
\<close>

definition rdb_Requeue :: "TaskMessage \<Rightarrow> store \<Rightarrow> store" where
  "rdb_Requeue msg st =
     st\<lparr>in_progress := remove1 msg (in_progress st),
        active := (active st)(Queue msg := msg # active st (Queue msg))\<rparr>"

text \<open>Modelled from the spec: \<open>Done\<close> removes the message from the in-progress area.\<close>

definition rdb_Done :: "TaskMessage \<Rightarrow> store \<Rightarrow> store" where
  "rdb_Done msg st = st\<lparr>in_progress := remove1 msg (in_progress st)\<rparr>"

text \<open>
  Modelled from the spec: \<open>Retry\<close> removes the message from the in-progress area,
  increments \<open>Retried\<close> and puts it into the retry bucket under \<open>retryAt\<close>, with the error
  text.
\<close>

definition rdb_Retry :: "TaskMessage \<Rightarrow> time \<Rightarrow> string \<Rightarrow> store \<Rightarrow> store" where
  "rdb_Retry msg retryAt errMsg st =
     st\<lparr>in_progress := remove1 msg (in_progress st),
        retry_bucket := retry_bucket st @ [(msg\<lparr>Retried := Retried msg + 1\<rparr>, retryAt, errMsg)]\<rparr>"

text \<open>
  Modelled from the spec: \<open>Kill\<close> removes the message from the in-progress area and puts
  it into the dead bucket, with the error text.
\<close>

definition rdb_Kill :: "TaskMessage \<Rightarrow> string \<Rightarrow> store \<Rightarrow> store" where
  "rdb_Kill msg errMsg st =
     st\<lparr>in_progress := remove1 msg (in_progress st),
        dead_bucket := dead_bucket st @ [(msg, errMsg)]\<rparr>"

text \<open>
  Modelled from the spec: \<open>RestoreUnfinished\<close> moves every message of the in-progress
  area back to the tail of its source queue.
\<close>

fun restore_all :: "TaskMessage list \<Rightarrow> (string \<Rightarrow> TaskMessage list) \<Rightarrow> (string \<Rightarrow> TaskMessage list)" where
  "restore_all [] a = a"
| "restore_all (m # ms) a = restore_all ms (a(Queue m := a (Queue m) @ [m]))"

definition rdb_RestoreUnfinished :: "store \<Rightarrow> store" where
  "rdb_RestoreUnfinished st =
     st\<lparr>active := restore_all (in_progress st) (active st), in_progress := []\<rparr>"

text \<open>
  The calls the processor makes, in the order it makes them. A call to the store is kept
  with its error result: \<open>None\<close> when the store did what the table says, \<open>Some e\<close> when
  the call failed, which leaves the store as it was.
\<close>

datatype store_op =
    OpDequeue "string list"
  | OpRequeue TaskMessage
  | OpDone TaskMessage
  | OpRetry TaskMessage time string
  | OpKill TaskMessage string
  | OpRestoreUnfinished

datatype event = StoreCall store_op "error option" | Invoke TaskMessage

fun apply_op :: "store_op \<Rightarrow> store \<Rightarrow> store" where
  "apply_op (OpDequeue qnames) st = (case rdb_Dequeue qnames st of None \<Rightarrow> st | Some (m, st') \<Rightarrow> st')"
| "apply_op (OpRequeue msg) st = rdb_Requeue msg st"
| "apply_op (OpDone msg) st = rdb_Done msg st"
| "apply_op (OpRetry msg retryAt errMsg) st = rdb_Retry msg retryAt errMsg st"
| "apply_op (OpKill msg errMsg) st = rdb_Kill msg errMsg st"
| "apply_op OpRestoreUnfinished st = rdb_RestoreUnfinished st"

section \<open>The processor and its goroutines\<close>

text \<open>
  The goroutines of one processor are run as an interleaving of atomic steps. Each
  goroutine has a program counter; a channel operation is a step that is enabled when Go
  lets it proceed, and where a \<open>select\<close> has several branches ready each of them is a
  possible step. Logging is left out.
\<close>

text \<open>
  \<open>sync.Once\<close> runs its function at most once, so the state of \<open>p.once\<close> holds where
  that one run of the function of \<open>stop\<close> stands: before \<open>close(p.abort)\<close>, or blocked on
  \<open>p.done <- struct{}{}\<close>.
\<close>

datatype f_pc = FClose | FSend
datatype once_state = OnceFresh | OnceRunning f_pc | OnceDone

text \<open>
  One call of \<open>stop\<close>: at \<open>once.Do\<close>; inside \<open>once.Do\<close>, running the function;
  returned.
\<close>

datatype stop_pc = SCall | SInDo | SReturned

text \<open>
  The call of \<open>terminate\<close>: not called; inside \<open>p.stop()\<close>; at \<open>time.AfterFunc\<close>; in the
  \<open>for\<close> loop with index \<open>i\<close>; returned.
\<close>

datatype term_pc = TIdle | TStop stop_pc | TAfterFunc | TAcquire nat | TReturned

datatype timer_state = TimerNone | Armed time | Fired time

text \<open>
  The goroutine of \<open>start\<close>: not started; at the \<open>select\<close> of the \<open>for\<close> loop; in
  \<open>time.Sleep\<close> until the given time; at the \<open>select\<close> of \<open>exec\<close> with the dequeued
  message; returned.
\<close>

datatype loop_pc = NotStarted | LTop | LSleep time | LHolding TaskMessage | LExited

text \<open>
  A worker goroutine: started, token held; at its \<open>select\<close>; at the deferred release of
  the token; gone. Its inner goroutine, which calls \<open>perform\<close>: not started; inside the
  handler; result sent to \<open>resCh\<close> (buffered, so the send never blocks).
\<close>

datatype worker_pc = WStart | WSelect | WRelease | WExited
datatype handler_pc = HNone | HRunning | HSent "error option"

record worker =
  wmsg :: TaskMessage
  wpc :: worker_pc
  hpc :: handler_pc

record state =
  proc :: processor
  now :: time
  rdb :: store
  sema :: nat
  abort_closed :: bool
  quit_closed :: bool
  once :: once_state
  done_sent :: nat
  panicked :: bool
  loop :: loop_pc
  workers :: "worker list"
  stoppers :: "stop_pc list"
  terminator :: term_pc
  timer :: timer_state
  calls :: "event list"

text \<open>The state \<open>newProcessor\<close> leaves: channels open and empty, nothing running.\<close>

definition init :: "processor \<Rightarrow> store \<Rightarrow> time \<Rightarrow> state" where
  "init p st t =
     \<lparr>proc = p, now = t, rdb = st, sema = 0, abort_closed = False, quit_closed = False,
      once = OnceFresh, done_sent = 0, panicked = False, loop = NotStarted, workers = [],
      stoppers = [], terminator = TIdle, timer = TimerNone, calls = []\<rparr>"

definition Second :: duration where
  "Second = 1000000000"

definition timeout :: duration where
  "timeout = 8 * Second"

text \<open>A call to the store: recorded, and applied unless it failed.\<close>

definition store_call :: "store_op \<Rightarrow> error option \<Rightarrow> state \<Rightarrow> state" where
  "store_call opn err s =
     s\<lparr>rdb := (if err = None then apply_op opn (rdb s) else rdb s),
       calls := calls s @ [StoreCall opn err]\<rparr>"

text \<open>
  \<open>restore\<close>, \<open>requeue\<close>, \<open>markAsDone\<close>, \<open>retry\<close> and \<open>kill\<close>: each makes its call and
  only logs an error, so the error is kept in the record of the call and nowhere else.
\<close>

definition restore :: "error option \<Rightarrow> state \<Rightarrow> state" where
  "restore err s = store_call OpRestoreUnfinished err s"

definition requeue :: "TaskMessage \<Rightarrow> error option \<Rightarrow> state \<Rightarrow> state" where
  "requeue msg err s = store_call (OpRequeue msg) err s"

definition markAsDone :: "TaskMessage \<Rightarrow> error option \<Rightarrow> state \<Rightarrow> state" where
  "markAsDone msg err s = store_call (OpDone msg) err s"

definition retry :: "TaskMessage \<Rightarrow> error \<Rightarrow> error option \<Rightarrow> state \<Rightarrow> state" where
  "retry msg e err s =
     (let d = retryDelayFunc (proc s) (Retried msg) e (NewTask (Type msg) (Payload msg));
          retryAt = now s + d
      in store_call (OpRetry msg retryAt e) err s)"

definition kill :: "TaskMessage \<Rightarrow> error \<Rightarrow> error option \<Rightarrow> state \<Rightarrow> state" where
  "kill msg e err s = store_call (OpKill msg e) err s"

text \<open>
  Closing a channel that is closed already panics, which ends the process.
\<close>

definition close_abort :: "state \<Rightarrow> state" where
  "close_abort s = (if abort_closed s then s\<lparr>panicked := True\<rparr> else s\<lparr>abort_closed := True\<rparr>)"

definition close_quit :: "state \<Rightarrow> state" where
  "close_quit s = (if quit_closed s then s\<lparr>panicked := True\<rparr> else s\<lparr>quit_closed := True\<rparr>)"

text \<open>
  One step of a call of \<open>stop\<close> at the given program counter. \<open>once.Do\<close> runs the function
  for the first caller, makes a caller that arrives meanwhile wait, and returns at once
  afterwards. The send on the unbuffered \<open>done\<close> proceeds only together with the receive
  in the \<open>select\<close> of the loop, which then returns.
\<close>

fun stop_step :: "stop_pc \<Rightarrow> state \<Rightarrow> (stop_pc \<times> state) option" where
  "stop_step SCall s =
     (case once s of
        OnceFresh \<Rightarrow> Some (SInDo, s\<lparr>once := OnceRunning FClose\<rparr>)
      | OnceRunning fpc \<Rightarrow> None
      | OnceDone \<Rightarrow> Some (SReturned, s))"
| "stop_step SInDo s =
     (case once s of
        OnceRunning FClose \<Rightarrow> Some (SInDo, (close_abort s)\<lparr>once := OnceRunning FSend\<rparr>)
      | OnceRunning FSend \<Rightarrow>
          (if loop s = LTop
           then Some (SReturned,
                  s\<lparr>loop := LExited, once := OnceDone, done_sent := done_sent s + 1\<rparr>)
           else None)
      | _ \<Rightarrow> None)"
| "stop_step SReturned s = None"

definition stopper_step :: "nat \<Rightarrow> state \<Rightarrow> state option" where
  "stopper_step i s =
     (if i < length (stoppers s)
      then (case stop_step (stoppers s ! i) s of
              None \<Rightarrow> None
            | Some (pc, s') \<Rightarrow> Some (s'\<lparr>stoppers := (stoppers s')[i := pc]\<rparr>))
      else None)"

text \<open>
  One step of \<open>terminate\<close>. The \<open>for\<close> loop sends one token per round, which waits while
  the channel is full; when \<open>i\<close> has reached \<open>cap(p.sema)\<close> the call makes the last
  \<open>restore\<close> and returns.
\<close>

definition terminate_step :: "error option \<Rightarrow> state \<Rightarrow> state option" where
  "terminate_step err s =
     (case terminator s of
        TIdle \<Rightarrow> None
      | TStop pc \<Rightarrow>
          (case stop_step pc s of
             None \<Rightarrow> None
           | Some (pc', s') \<Rightarrow>
               Some (s'\<lparr>terminator := (if pc' = SReturned then TAfterFunc else TStop pc')\<rparr>))
      | TAfterFunc \<Rightarrow> Some (s\<lparr>timer := Armed (now s), terminator := TAcquire 0\<rparr>)
      | TAcquire i \<Rightarrow>
          (if i < sema_cap (proc s)
           then (if sema s < sema_cap (proc s)
                 then Some (s\<lparr>sema := sema s + 1, terminator := TAcquire (i + 1)\<rparr>)
                 else None)
           else Some ((restore err s)\<lparr>terminator := TReturned\<rparr>))
      | TReturned \<Rightarrow> None)"

text \<open>The function given to \<open>time.AfterFunc\<close> runs once \<open>timeout\<close> has passed.\<close>

definition timer_fire :: "state \<Rightarrow> state option" where
  "timer_fire s =
     (case timer s of
        Armed t0 \<Rightarrow> (if t0 + timeout \<le> now s then Some ((close_quit s)\<lparr>timer := Fired t0\<rparr>) else None)
      | _ \<Rightarrow> None)"

text \<open>\<open>start\<close>: \<open>restore\<close>, then the goroutine of the loop.\<close>

definition start :: "error option \<Rightarrow> state \<Rightarrow> state option" where
  "start err s = (if loop s = NotStarted then Some ((restore err s)\<lparr>loop := LTop\<rparr>) else None)"

text \<open>
  \<open>exec\<close> up to its \<open>select\<close>, entered through the \<open>default\<close> branch of the loop. Go
  takes that branch as long as no sender is parked on \<open>done\<close>; a caller of \<open>stop\<close> that
  has closed \<open>abort\<close> may not have parked yet, so the branch stays open until the
  rendezvous. \<open>err\<close> is an unexpected error of \<open>Dequeue\<close>.
\<close>

definition exec_dequeue :: "queue_config \<Rightarrow> (nat \<Rightarrow> nat) \<Rightarrow> error option \<Rightarrow> state \<Rightarrow> state option" where
  "exec_dequeue ord rnd err s =
     (if loop s = LTop \<and> mset ord = mset (queueConfig (proc s))
      then (let qnames = queues (proc s) ord rnd;
                s' = store_call (OpDequeue qnames) err s
            in if err \<noteq> None then Some s'
               else (case rdb_Dequeue qnames (rdb s) of
                       None \<Rightarrow>
                         Some (if length (queueConfig (proc s)) > 1
                               then s'\<lparr>loop := LSleep (now s + Second)\<rparr> else s')
                     | Some (msg, st) \<Rightarrow> Some (s'\<lparr>loop := LHolding msg\<rparr>)))
      else None)"

definition loop_wake :: "state \<Rightarrow> state option" where
  "loop_wake s =
     (case loop s of
        LSleep t \<Rightarrow> (if t \<le> now s then Some (s\<lparr>loop := LTop\<rparr>) else None)
      | _ \<Rightarrow> None)"

text \<open>The two branches of the \<open>select\<close> of \<open>exec\<close>.\<close>

definition exec_abort :: "error option \<Rightarrow> state \<Rightarrow> state option" where
  "exec_abort err s =
     (case loop s of
        LHolding msg \<Rightarrow> (if abort_closed s then Some ((requeue msg err s)\<lparr>loop := LTop\<rparr>) else None)
      | _ \<Rightarrow> None)"

definition exec_acquire :: "state \<Rightarrow> state option" where
  "exec_acquire s =
     (case loop s of
        LHolding msg \<Rightarrow>
          (if sema s < sema_cap (proc s)
           then Some (s\<lparr>sema := sema s + 1,
                        workers := workers s @ [\<lparr>wmsg = msg, wpc = WStart, hpc = HNone\<rparr>],
                        loop := LTop\<rparr>)
           else None)
      | _ \<Rightarrow> None)"

text \<open>The worker goroutine, step by step.\<close>

definition worker_spawn :: "nat \<Rightarrow> state \<Rightarrow> state option" where
  "worker_spawn i s =
     (if i < length (workers s) \<and> wpc (workers s ! i) = WStart
      then Some (s\<lparr>workers := (workers s)[i := (workers s ! i)\<lparr>wpc := WSelect, hpc := HRunning\<rparr>],
                   calls := calls s @ [Invoke (wmsg (workers s ! i))]\<rparr>)
      else None)"

definition handler_return :: "nat \<Rightarrow> state \<Rightarrow> state option" where
  "handler_return i s =
     (if i < length (workers s) \<and> hpc (workers s ! i) = HRunning
      then (let msg = wmsg (workers s ! i);
                res = perform (handler (proc s)) (NewTask (Type msg) (Payload msg))
            in Some (s\<lparr>workers := (workers s)[i := (workers s ! i)\<lparr>hpc := HSent res\<rparr>]\<rparr>))
      else None)"

definition worker_quit :: "nat \<Rightarrow> state \<Rightarrow> state option" where
  "worker_quit i s =
     (if i < length (workers s) \<and> wpc (workers s ! i) = WSelect \<and> quit_closed s
      then Some (s\<lparr>workers := (workers s)[i := (workers s ! i)\<lparr>wpc := WRelease\<rparr>]\<rparr>)
      else None)"

text \<open>The branch \<open>case resErr := <-resCh\<close>: what the worker does with the result.\<close>

definition finish :: "TaskMessage \<Rightarrow> error option \<Rightarrow> error option \<Rightarrow> state \<Rightarrow> state" where
  "finish msg resErr err s =
     (case resErr of
        Some e \<Rightarrow> (if Retried msg \<ge> Retry msg then kill msg e err s else retry msg e err s)
      | None \<Rightarrow> markAsDone msg err s)"

definition worker_result :: "nat \<Rightarrow> error option \<Rightarrow> state \<Rightarrow> state option" where
  "worker_result i err s =
     (if i < length (workers s) \<and> wpc (workers s ! i) = WSelect
      then (case hpc (workers s ! i) of
              HSent resErr \<Rightarrow>
                (let s' = finish (wmsg (workers s ! i)) resErr err s
                 in Some (s'\<lparr>workers := (workers s')[i := (workers s' ! i)\<lparr>wpc := WRelease\<rparr>]\<rparr>))
            | _ \<Rightarrow> None)
      else None)"

definition worker_release :: "nat \<Rightarrow> state \<Rightarrow> state option" where
  "worker_release i s =
     (if i < length (workers s) \<and> wpc (workers s ! i) = WRelease \<and> 0 < sema s
      then Some (s\<lparr>sema := sema s - 1,
                   workers := (workers s)[i := (workers s ! i)\<lparr>wpc := WExited\<rparr>]\<rparr>)
      else None)"

text \<open>
  What can happen next. The client calls \<open>start\<close> at most once and \<open>terminate\<close> at most
  once, and \<open>stop\<close> as often as it likes; time passes; every goroutine takes its steps.
  After a panic nothing runs.
\<close>

datatype action =
    Tick nat
  | Start "error option"
  | CallStop
  | CallTerminate
  | StopStep nat
  | TermStep "error option"
  | TimerFire
  | LoopExec queue_config "nat \<Rightarrow> nat" "error option"
  | LoopWake
  | LoopAbort "error option"
  | LoopAcquire
  | WorkerSpawn nat
  | HandlerReturn nat
  | WorkerQuit nat
  | WorkerResult nat "error option"
  | WorkerRelease nat

fun action_step :: "action \<Rightarrow> state \<Rightarrow> state option" where
  "action_step (Tick d) s = Some (s\<lparr>now := now s + int d\<rparr>)"
| "action_step (Start err) s = start err s"
| "action_step CallStop s = Some (s\<lparr>stoppers := stoppers s @ [SCall]\<rparr>)"
| "action_step CallTerminate s = (if terminator s = TIdle then Some (s\<lparr>terminator := TStop SCall\<rparr>) else None)"
| "action_step (StopStep i) s = stopper_step i s"
| "action_step (TermStep err) s = terminate_step err s"
| "action_step TimerFire s = timer_fire s"
| "action_step (LoopExec ord rnd err) s = exec_dequeue ord rnd err s"
| "action_step LoopWake s = loop_wake s"
| "action_step (LoopAbort err) s = exec_abort err s"
| "action_step LoopAcquire s = exec_acquire s"
| "action_step (WorkerSpawn i) s = worker_spawn i s"
| "action_step (HandlerReturn i) s = handler_return i s"
| "action_step (WorkerQuit i) s = worker_quit i s"
| "action_step (WorkerResult i err) s = worker_result i err s"
| "action_step (WorkerRelease i) s = worker_release i s"

definition step :: "action \<Rightarrow> state \<Rightarrow> state option" where
  "step a s = (if panicked s then None else action_step a s)"

fun run :: "action list \<Rightarrow> state \<Rightarrow> state option" where
  "run [] s = Some s"
| "run (a # as) s = (case step a s of None \<Rightarrow> None | Some s' \<Rightarrow> run as s')"

text \<open>What the claims count.\<close>

definition handlers_running :: "state \<Rightarrow> nat" where
  "handlers_running s = length (filter (\<lambda>w. hpc w = HRunning) (workers s))"

definition live_workers :: "state \<Rightarrow> nat" where
  "live_workers s = length (filter (\<lambda>w. wpc w \<noteq> WExited) (workers s))"

text \<open>The tokens \<open>terminate\<close> has put into \<open>sema\<close>, of which it will put \<open>c\<close>.\<close>

fun tokens_of :: "nat \<Rightarrow> term_pc \<Rightarrow> nat" where
  "tokens_of c (TAcquire i) = i"
| "tokens_of c TReturned = c"
| "tokens_of c pc = 0"

definition term_tokens :: "state \<Rightarrow> nat" where
  "term_tokens s = tokens_of (sema_cap (proc s)) (terminator s)"

text \<open>
  The facts that hold in every state the processor can reach. First the signals: when
  \<open>abort\<close> and \<open>quit\<close> are closed, what has been sent on \<open>done\<close>, and how far
  \<open>terminate\<close> has come.
\<close>

fun past_stop :: "term_pc \<Rightarrow> bool" where
  "past_stop TIdle = False"
| "past_stop (TStop pc) = False"
| "past_stop TAfterFunc = True"
| "past_stop (TAcquire i) = True"
| "past_stop TReturned = True"

fun scheduled :: "term_pc \<Rightarrow> bool" where
  "scheduled (TAcquire i) = True"
| "scheduled TReturned = True"
| "scheduled pc = False"

fun fired :: "timer_state \<Rightarrow> bool" where
  "fired (Fired t0) = True"
| "fired tm = False"

definition signals_ok :: "state \<Rightarrow> bool" where
  "signals_ok s \<longleftrightarrow>
     \<not> panicked s
     \<and> (abort_closed s \<longleftrightarrow> once s = OnceRunning FSend \<or> once s = OnceDone)
     \<and> done_sent s = (if once s = OnceDone then 1 else 0)
     \<and> (once s = OnceDone \<longrightarrow> loop s = LExited)
     \<and> (SReturned \<in> set (stoppers s) \<longrightarrow> once s = OnceDone)
     \<and> (past_stop (terminator s) \<longrightarrow> once s = OnceDone)
     \<and> (timer s \<noteq> TimerNone \<longleftrightarrow> scheduled (terminator s))
     \<and> (quit_closed s \<longleftrightarrow> fired (timer s))
     \<and> (\<forall>t0. timer s = Fired t0 \<longrightarrow> t0 + timeout \<le> now s)
     \<and> (\<forall>t0. timer s = Armed t0 \<longrightarrow> t0 \<le> now s)"

text \<open>The tokens in \<open>sema\<close>: one for each worker that has not released, and those of \<open>terminate\<close>.\<close>

definition tokens_ok :: "state \<Rightarrow> bool" where
  "tokens_ok s \<longleftrightarrow>
     sema s = live_workers s + term_tokens s
     \<and> sema s \<le> sema_cap (proc s)
     \<and> term_tokens s \<le> sema_cap (proc s)"

text \<open>
  The workers: a handler that is running, or will be started, belongs to a worker at its
  \<open>select\<close> or at its start, unless \<open>quit\<close> is closed.
\<close>

definition pending :: "state \<Rightarrow> nat" where
  "pending s = length (filter (\<lambda>w. wpc w = WStart \<or> hpc w = HRunning) (workers s))"

definition worker_ok :: "bool \<Rightarrow> worker \<Rightarrow> bool" where
  "worker_ok q w \<longleftrightarrow>
     (wpc w = WStart \<longleftrightarrow> hpc w = HNone)
     \<and> (hpc w = HRunning \<and> wpc w \<noteq> WSelect \<longrightarrow> q)"

definition workers_ok :: "state \<Rightarrow> bool" where
  "workers_ok s \<longleftrightarrow>
     list_all (worker_ok (quit_closed s)) (workers s) \<and> pending s \<le> sema_cap (proc s)"

text \<open>Once \<open>terminate\<close> has returned, the last call the processor has made is its \<open>restore\<close>.\<close>

definition returned_ok :: "state \<Rightarrow> bool" where
  "returned_ok s \<longleftrightarrow>
     (terminator s = TReturned \<longrightarrow>
        calls s \<noteq> []
        \<and> (\<exists>err. last (calls s) = StoreCall OpRestoreUnfinished err
                 \<and> (err = None \<longrightarrow> in_progress (rdb s) = [])))"

definition inv :: "state \<Rightarrow> bool" where
  "inv s \<longleftrightarrow> signals_ok s \<and> tokens_ok s \<and> workers_ok s \<and> returned_ok s"

text \<open>
  The call that settles the result of a worker: \<open>Done\<close> for its message after a success,
  \<open>Kill\<close> with the text of the failure when \<open>Retried >= Retry\<close>, \<open>Retry\<close> with that
  text otherwise. As long as \<open>quit\<close> is not closed, every worker that has left its
  \<open>select\<close> has made that call.
\<close>

fun settles :: "worker \<Rightarrow> event \<Rightarrow> bool" where
  "settles w (StoreCall (OpDone m) err) = (m = wmsg w \<and> hpc w = HSent None)"
| "settles w (StoreCall (OpKill m e) err) =
     (m = wmsg w \<and> hpc w = HSent (Some e) \<and> Retry m \<le> Retried m)"
| "settles w (StoreCall (OpRetry m retryAt e) err) =
     (m = wmsg w \<and> hpc w = HSent (Some e) \<and> Retried m < Retry m)"
| "settles w ev = False"

definition left_select :: "worker \<Rightarrow> bool" where
  "left_select w \<longleftrightarrow> wpc w = WRelease \<or> wpc w = WExited"

definition results_settled :: "state \<Rightarrow> bool" where
  "results_settled s \<longleftrightarrow>
     quit_closed s
     \<or> list_all (\<lambda>w. left_select w \<longrightarrow> list_ex (settles w) (calls s)) (workers s)"

text \<open>
  Calls of \<open>stop\<close> made one after the other, each run to its end before the next begins.
  The caller that finds \<open>once\<close> fresh enters \<open>once.Do\<close>, closes \<open>abort\<close> and sends
  on \<open>done\<close>; a later caller has one step to take.
\<close>

definition first_stop :: "nat \<Rightarrow> action list" where
  "first_stop k = [CallStop, StopStep k, StopStep k, StopStep k]"

fun more_stops :: "nat \<Rightarrow> nat \<Rightarrow> action list" where
  "more_stops k 0 = []"
| "more_stops k (Suc n) = CallStop # StopStep k # more_stops (Suc k) n"

text \<open>
  What holds of a processor as long as \<open>start\<close> has not been called, \<open>st\<close> being the
  store it was given.
\<close>

definition unstarted :: "store \<Rightarrow> state \<Rightarrow> bool" where
  "unstarted st s \<longleftrightarrow>
     loop s = NotStarted \<and> once s \<noteq> OnceDone \<and> SReturned \<notin> set (stoppers s)
     \<and> \<not> past_stop (terminator s) \<and> terminator s \<noteq> TStop SReturned
     \<and> calls s = [] \<and> rdb s = st \<and> workers s = [] \<and> \<not> panicked s
     \<and> timer s = TimerNone \<and> \<not> quit_closed s
     \<and> (abort_closed s \<longleftrightarrow> once s = OnceRunning FSend)"

text \<open>
  A message, a store and a processor to run the model on; a random source and a retry
  delay; and a run in which a worker is abandoned at the deadline and the last
  \<open>RestoreUnfinished\<close> fails.
\<close>

definition rnd0 :: "nat \<Rightarrow> nat" where
  "rnd0 i = 0"

definition no_delay :: retryDelayFunc where
  "no_delay n e t = 0"

definition msg0 :: TaskMessage where
  "msg0 = \<lparr>Type = ''send'', Payload = [], ID = ''1'', Queue = ''default'', Retry = 0, Retried = 0\<rparr>"

definition store0 :: store where
  "store0 = \<lparr>active = (\<lambda>q. if q = ''default'' then [msg0] else []), in_progress = [],
             retry_bucket = [], dead_bucket = []\<rparr>"

definition proc0 :: processor where
  "proc0 = newProcessor 1 [(''default'', 1)] False no_delay"

definition abandoned_run :: "action list" where
  "abandoned_run =
     [Start None, LoopExec [(''default'', 1)] rnd0 None, LoopAcquire, WorkerSpawn 0,
      CallTerminate, TermStep None, TermStep None, TermStep None, TermStep None,
      Tick 8000000000, TimerFire, WorkerQuit 0, WorkerRelease 0, TermStep None,
      TermStep (Some ''connection refused'')]"

text \<open>A run up to the first failure of the handler.\<close>

definition failed_run :: "action list" where
  "failed_run =
     [Start None, LoopExec [(''default'', 1)] rnd0 None, LoopAcquire, WorkerSpawn 0,
      HandlerReturn 0]"

text \<open>
  A run in which the handler has returned its failure, the deadline passes, and the
  worker leaves through \<open>quit\<close>; and a store whose message may be retried twice.
\<close>

definition quit_run :: "action list" where
  "quit_run =
     [Start None, LoopExec [(''default'', 1)] rnd0 None, LoopAcquire, WorkerSpawn 0,
      HandlerReturn 0, CallTerminate, TermStep None, TermStep None, TermStep None,
      TermStep None, Tick 8000000000, TimerFire, WorkerQuit 0, WorkerRelease 0,
      TermStep None, TermStep None]"

definition store2 :: store where
  "store2 = \<lparr>active = (\<lambda>q. if q = ''default'' then [msg0\<lparr>Retry := 2\<rparr>] else []),
             in_progress = [], retry_bucket = [], dead_bucket = []\<rparr>"

section \<open>Properties of the queue selector\<close>

lemma first_occurrences_set: "set (first_occurrences xs) = set xs"
  by (induction xs rule: first_occurrences.induct) auto

lemma first_occurrences_distinct: "distinct (first_occurrences xs)"
  by (induction xs rule: first_occurrences.induct) (auto simp: first_occurrences_set)

lemma first_occurrences_length: "length (first_occurrences xs) = card (set xs)"
  using distinct_card [OF first_occurrences_distinct, of xs]
  by (simp add: first_occurrences_set)

lemma first_occurrences_nil_iff: "first_occurrences xs = [] \<longleftrightarrow> xs = []"
  by (cases xs) auto

lemma filter_seen_nil:
  assumes "distinct res" "int (card (set res \<union> set ss)) \<le> l" "int (length res) = l"
  shows "filter (\<lambda>y. y \<notin> set res) ss = []"
proof -
  have "card (set res \<union> set ss) \<le> card (set res)"
    using assms by (simp add: distinct_card)
  then have "set res = set res \<union> set ss"
    by (intro card_seteq) auto
  then show ?thesis by (auto simp: filter_empty_conv)
qed

lemma uniq_loop_first_occurrences:
  "seen = set res \<Longrightarrow> distinct res \<Longrightarrow> int (card (set res \<union> set ss)) \<le> l \<Longrightarrow>
   uniq_loop ss l seen res = res @ first_occurrences (filter (\<lambda>y. y \<notin> set res) ss)"
proof (induction ss arbitrary: seen res)
  case Nil
  then show ?case by simp
next
  case (Cons s ss)
  show ?case
  proof (cases "s \<in> set res")
    case True
    show ?thesis
    proof (cases "int (length res) = l")
      case full: True
      have "filter (\<lambda>y. y \<notin> set res) (s # ss) = []"
        using filter_seen_nil [OF Cons.prems(2) Cons.prems(3) full] .
      then show ?thesis using True full Cons.prems(1) by simp
    next
      case False
      have "int (card (set res \<union> set ss)) \<le> l"
        using Cons.prems(3) True by (simp add: insert_absorb)
      from Cons.IH [OF Cons.prems(1) Cons.prems(2) this] show ?thesis
        using True False Cons.prems(1) by simp
    qed
  next
    case new: False
    let ?res = "res @ [s]"
    have d: "distinct ?res" using new Cons.prems(2) by simp
    have c: "int (card (set ?res \<union> set ss)) \<le> l"
      using Cons.prems(3) by (simp add: Un_commute)
    have f: "filter (\<lambda>y. y \<notin> set ?res) ss = filter (\<lambda>y. y \<noteq> s) (filter (\<lambda>y. y \<notin> set res) ss)"
      by (induction ss) auto
    show ?thesis
    proof (cases "int (length ?res) = l")
      case full: True
      have "filter (\<lambda>y. y \<notin> set ?res) ss = []"
        using filter_seen_nil [OF d c full] .
      then show ?thesis using new full Cons.prems(1) f by simp
    next
      case False
      have s: "insert s (set res) = set ?res" by simp
      from Cons.IH [OF s d c] show ?thesis
        using new False Cons.prems(1) f by simp
    qed
  qed
qed

lemma uniq_first_occurrences:
  "int (card (set names)) \<le> l \<Longrightarrow> uniq names l = first_occurrences names"
  using uniq_loop_first_occurrences [of "{}" "[]" names l] by (simp add: uniq_def)

lemma length_swap: "length (swap xs i j) = length xs"
  by (simp add: swap_def)

lemma mset_swap_list: "i < length xs \<Longrightarrow> j < length xs \<Longrightarrow> mset (swap xs i j) = mset xs"
  by (simp add: swap_def mset_swap)

lemma mset_shuffle_loop: "i < length xs \<Longrightarrow> mset (shuffle_loop rnd i xs) = mset xs"
proof (induction i arbitrary: xs)
  case 0
  then show ?case by simp
next
  case (Suc i)
  have j: "rnd (Suc i) mod Suc (Suc i) < length xs"
    using Suc.prems by (meson Suc_leI less_le_trans mod_less_divisor zero_less_Suc)
  have "mset (shuffle_loop rnd i (swap xs (Suc i) (rnd (Suc i) mod Suc (Suc i)))) =
        mset (swap xs (Suc i) (rnd (Suc i) mod Suc (Suc i)))"
    using Suc.prems by (intro Suc.IH) (simp add: length_swap)
  then show ?case using Suc.prems j by (simp add: mset_swap_list)
qed

lemma mset_Shuffle: "mset (Shuffle rnd xs) = mset xs"
  by (cases xs) (simp_all add: Shuffle_def mset_shuffle_loop)

lemma set_names_of:
  "set (names_of ord) = {q. \<exists>w. (q, w) \<in> set ord \<and> 0 < sint w}"
  by (induction ord) (auto simp: names_of_def)

lemma count_names_of:
  "distinct (map fst ord) \<Longrightarrow> (q, w) \<in> set ord \<Longrightarrow> count (mset (names_of ord)) q = nat (sint w)"
proof (induction ord)
  case Nil
  then show ?case by simp
next
  case (Cons e ord)
  obtain q' w' where e: "e = (q', w')" by (cases e)
  have split: "names_of (e # ord) = replicate (nat (sint w')) q' @ names_of ord"
    by (simp add: names_of_def e)
  show ?case
  proof (cases "q = q'")
    case True
    then have "w = w'" and "q \<notin> set (names_of ord)"
      using Cons.prems e by (auto simp: set_names_of rev_image_eqI)
    then show ?thesis using True split by (simp add: count_eq_zero_iff [symmetric])
  next
    case False
    then have "(q, w) \<in> set ord" using Cons.prems e by auto
    then show ?thesis using Cons False split e by simp
  qed
qed

lemma mset_insert_left: "mset (insert_left q acc) = add_mset q (mset acc)"
  by (induction acc) auto

lemma mset_foldl_insert_left:
  "mset (foldl (\<lambda>acc q. insert_left q acc) acc qs) = mset acc + mset qs"
  by (induction qs arbitrary: acc) (auto simp: mset_insert_left)

lemma mset_sort_Sort_Reverse: "mset (sort_Sort_Reverse qs) = mset qs"
  by (simp add: sort_Sort_Reverse_def mset_foldl_insert_left)

lemma set_insert_left: "set (insert_left q acc) = insert q (set acc)"
  using mset_insert_left [of q acc, THEN arg_cong, of set_mset] by simp

lemma ascending_insert_left:
  "sorted_wrt (\<lambda>a b. priority a \<le> priority b) acc \<Longrightarrow>
   sorted_wrt (\<lambda>a b. priority a \<le> priority b) (insert_left q acc)"
  by (induction acc) (auto simp: set_insert_left reverse_less_def Less_def)

lemma ascending_foldl_insert_left:
  "sorted_wrt (\<lambda>a b. priority a \<le> priority b) acc \<Longrightarrow>
   sorted_wrt (\<lambda>a b. priority a \<le> priority b) (foldl (\<lambda>acc q. insert_left q acc) acc qs)"
  by (induction qs arbitrary: acc) (auto simp: ascending_insert_left)

lemma descending_sort_Sort_Reverse:
  "sorted_wrt (\<lambda>a b. priority b \<le> priority a) (sort_Sort_Reverse qs)"
  using ascending_foldl_insert_left [of "[]" qs]
  by (simp add: sort_Sort_Reverse_def sorted_wrt_rev)

lemma insert_left_rev_sorted:
  "sorted_wrt (\<lambda>a b. priority b \<le> priority a) (qs @ [q]) \<Longrightarrow>
   insert_left q (rev qs) = q # rev qs"
proof (cases qs rule: rev_cases)
  case Nil
  then show ?thesis by simp
next
  case (snoc ys y)
  assume "sorted_wrt (\<lambda>a b. priority b \<le> priority a) (qs @ [q])"
  then have "priority q \<le> priority y"
    using snoc by (simp add: sorted_wrt_append)
  then have "\<not> priority y < priority q" by (rule leD)
  then show ?thesis using snoc by (simp add: reverse_less_def Less_def)
qed

lemma foldl_insert_left_sorted:
  "sorted_wrt (\<lambda>a b. priority b \<le> priority a) qs \<Longrightarrow>
   foldl (\<lambda>acc q. insert_left q acc) [] qs = rev qs"
proof (induction qs rule: rev_induct)
  case Nil
  then show ?case by simp
next
  case (snoc q qs)
  have "sorted_wrt (\<lambda>a b. priority b \<le> priority a) qs"
    using snoc.prems by (simp add: sorted_wrt_append)
  then have "foldl (\<lambda>acc q. insert_left q acc) [] qs = rev qs" by (rule snoc.IH)
  then show ?case using insert_left_rev_sorted [OF snoc.prems] by simp
qed

text \<open>
  A list that is in descending order already is left as it is: every descending
  arrangement of the entries is the model's result for some iteration order.
\<close>

lemma sort_Sort_Reverse_sorted:
  "sorted_wrt (\<lambda>a b. priority b \<le> priority a) qs \<Longrightarrow> sort_Sort_Reverse qs = qs"
  by (simp add: sort_Sort_Reverse_def foldl_insert_left_sorted)

lemma sortByPriority_entries:
  "\<exists>es. sortByPriority qcfg = map fst es \<and> mset es = mset qcfg \<and>
        sorted_wrt (\<lambda>a b. snd b \<le> snd a) es"
proof -
  let ?mk = "\<lambda>(qname, n). \<lparr>name = qname, priority = n\<rparr>"
  let ?un = "\<lambda>q. (name q, priority q)"
  let ?qs = "sort_Sort_Reverse (map ?mk qcfg)"
  have un_mk: "?un \<circ> ?mk = id" by (auto simp: fun_eq_iff)
  have "mset (map ?un ?qs) = image_mset ?un (mset (map ?mk qcfg))"
    by (simp add: mset_sort_Sort_Reverse)
  also have "\<dots> = mset qcfg"
    by (simp add: multiset.map_comp un_mk)
  finally have m: "mset (map ?un ?qs) = mset qcfg" .
  have s: "sorted_wrt (\<lambda>a b. snd b \<le> snd a) (map ?un ?qs)"
    using descending_sort_Sort_Reverse [of "map ?mk qcfg"] by (simp add: sorted_wrt_map)
  have "sortByPriority qcfg = map fst (map ?un ?qs)"
    by (simp add: sortByPriority_def comp_def)
  with m s show ?thesis by blast
qed

lemma descending_unique:
  "sorted_wrt (\<lambda>a b. snd b < snd a) es \<Longrightarrow> mset qs = mset es \<Longrightarrow>
   sorted_wrt (\<lambda>a b. snd b \<le> snd a) qs \<Longrightarrow> qs = (es :: (string \<times> uint) list)"
proof (induction es arbitrary: qs)
  case Nil
  then show ?case by simp
next
  case (Cons e es)
  then obtain q qs' where qs: "qs = q # qs'" by (cases qs) auto
  have "q = e"
  proof (rule ccontr)
    assume ne: "q \<noteq> e"
    have "q \<in> set (e # es)" using Cons.prems(2) qs by (metis list.set_intros(1) mset_eq_setD)
    with ne have "q \<in> set es" by simp
    then have lt: "snd q < snd e" using Cons.prems(1) by simp
    have "e \<in> set (q # qs')" using Cons.prems(2) qs by (metis list.set_intros(1) mset_eq_setD)
    with ne have "e \<in> set qs'" by auto
    then have "snd e \<le> snd q" using Cons.prems(3) qs by simp
    with lt show False by simp
  qed
  moreover have "qs' = es"
    using Cons.prems qs \<open>q = e\<close> by (intro Cons.IH) auto
  ultimately show ?case using qs by simp
qed

lemma sortByPriority_strict:
  assumes "sorted_wrt (\<lambda>a b. snd b < snd a) es" "mset qcfg = mset es"
  shows "sortByPriority qcfg = map fst es"
proof -
  obtain qs where qs: "sortByPriority qcfg = map fst qs" "mset qs = mset qcfg"
      "sorted_wrt (\<lambda>a b. snd b \<le> snd a) qs"
    using sortByPriority_entries by blast
  have "qs = es" using descending_unique [OF assms(1) _ qs(3)] qs(2) assms(2) by simp
  then show ?thesis using qs(1) by simp
qed

lemma sortByPriority_nil_iff: "sortByPriority qcfg = [] \<longleftrightarrow> qcfg = []"
proof -
  obtain qs where qs: "sortByPriority qcfg = map fst qs" "mset qs = mset qcfg"
    using sortByPriority_entries by blast
  then show ?thesis by (metis map_is_Nil_conv mset_zero_iff)
qed

lemma queues_strict:
  assumes "mset ord = mset qcfg"
  shows "queues (newProcessor n qcfg True fn) ord rnd = sortByPriority qcfg"
proof (cases qcfg)
  case Nil
  then have "ord = []" using assms by simp
  moreover have "sortByPriority [] = []" by (simp add: sortByPriority_nil_iff)
  ultimately show ?thesis using Nil
    by (simp add: queues_def newProcessor_def go_slice_def
        uniq_def Shuffle_def names_of_def)
next
  case (Cons e rest)
  show ?thesis
  proof (cases rest)
    case Nil
    then have "ord = [e]" using assms Cons by simp
    then show ?thesis using Nil Cons
      by (cases e) (simp add: queues_def newProcessor_def sortByPriority_def
          sort_Sort_Reverse_def)
  next
    case (Cons e' rest')
    then have "length qcfg \<noteq> 1" "sortByPriority qcfg \<noteq> []"
      using \<open>qcfg = e # rest\<close> by (simp_all add: sortByPriority_nil_iff)
    then show ?thesis
      by (simp add: queues_def newProcessor_def go_slice_def split: list.splits prod.splits)
  qed
qed

lemma queues_weighted:
  assumes "distinct (map fst qcfg)" "mset ord = mset qcfg" "length qcfg \<noteq> 1"
  shows "queues (newProcessor n qcfg False fn) ord rnd
         = first_occurrences (Shuffle rnd (names_of ord))"
proof -
  have "set (Shuffle rnd (names_of ord)) = set (names_of ord)"
    using mset_Shuffle [of rnd "names_of ord"] by (rule mset_eq_setD)
  also have "\<dots> \<subseteq> fst ` set ord" by (auto simp: set_names_of rev_image_eqI)
  also have "\<dots> = set (map fst qcfg)"
    using assms(2) by (metis mset_eq_setD set_map)
  finally have "card (set (Shuffle rnd (names_of ord))) \<le> card (set (map fst qcfg))"
    by (intro card_mono) auto
  also have "\<dots> = length qcfg" using distinct_card [OF assms(1)] by simp
  finally have "uniq (Shuffle rnd (names_of ord)) (int (length qcfg))
                = first_occurrences (Shuffle rnd (names_of ord))"
    by (intro uniq_first_occurrences) simp
  then show ?thesis using assms(3)
    by (simp add: queues_def newProcessor_def split: list.splits prod.splits)
qed


lemma length_queues_weighted:
  assumes "distinct (map fst qcfg)" "mset ord = mset qcfg" "length qcfg \<noteq> 1"
  shows "length (queues (newProcessor n qcfg False fn) ord rnd)
         = length (filter (\<lambda>(q, w). 0 < sint w) qcfg)"
proof -
  let ?pos = "filter (\<lambda>(q, w). 0 < sint w) qcfg"
  have so: "set ord = set qcfg" using assms(2) by (rule mset_eq_setD)
  have "set (Shuffle rnd (names_of ord)) = set (names_of ord)"
    using mset_Shuffle [of rnd "names_of ord"] by (rule mset_eq_setD)
  also have "\<dots> = set (map fst ?pos)"
    using so by (force simp: set_names_of)
  finally have "card (set (Shuffle rnd (names_of ord))) = card (set (map fst ?pos))"
    by simp
  also have "\<dots> = length (map fst ?pos)"
    using assms(1) by (intro distinct_card) (simp add: distinct_map_filter)
  finally show ?thesis
    using queues_weighted [OF assms] by (simp add: first_occurrences_length)
qed

text \<open>
  Claim C9. In strict-priority mode \<open>queues\<close> returns the list computed once by
  \<open>newProcessor\<close>, for every iteration order of the map and every random source: the
  names of the configured entries arranged by descending weight. For the configuration
  \<open>{A:3, B:2, C:1}\<close> the answer is \<open>[A, B, C]\<close> at every call.
\<close>

theorem strict_priority_queues:
  assumes "mset ord = mset qcfg"
  shows "queues (newProcessor n qcfg True fn) ord rnd = sortByPriority qcfg
       \<and> orderedQueues (newProcessor n qcfg True fn) = go_slice (sortByPriority qcfg)
       \<and> (\<exists>es. sortByPriority qcfg = map fst es \<and> mset es = mset qcfg
               \<and> sorted_wrt (\<lambda>a b. snd b \<le> snd a) es)
       \<and> (mset qcfg = {#(''A'', 3), (''B'', 2), (''C'', 1)#}
            \<longrightarrow> queues (newProcessor n qcfg True fn) ord rnd = [''A'', ''B'', ''C''])"
proof -
  have "sortByPriority qcfg = [''A'', ''B'', ''C'']"
    if "mset qcfg = {#(''A'', 3), (''B'', 2), (''C'', 1)#}"
    using sortByPriority_strict [of "[(''A'', 3), (''B'', 2), (''C'', 1)]" qcfg] that by simp
  moreover have "orderedQueues (newProcessor n qcfg True fn) = go_slice (sortByPriority qcfg)"
    by (simp add: newProcessor_def)
  ultimately show ?thesis
    using queues_strict [OF assms, of n fn rnd] sortByPriority_entries [of qcfg]
    by simp
qed

theorem strict_priority_queues_witness:
  "queues (newProcessor 1 [(''C'', 1), (''A'', 3), (''B'', 2)] True (\<lambda>_ _ _. 0))
      [(''B'', 2), (''C'', 1), (''A'', 3)] (\<lambda>_. 0) = [''A'', ''B'', ''C'']
   \<and> sortByPriority [(''C'', 1), (''A'', 3), (''B'', 2)] = [''A'', ''B'', ''C'']"
proof -
  have m: "mset [(''B'', 2), (''C'', 1), (''A'', 3 :: uint)]
           = mset [(''C'', 1), (''A'', 3), (''B'', 2)]"
    by simp
  have c: "mset [(''C'', 1), (''A'', 3), (''B'', 2 :: uint)]
           = {#(''A'', 3), (''B'', 2), (''C'', 1)#}"
    by simp
  note t = strict_priority_queues [OF m, of 1 "\<lambda>_ _ _. 0" "\<lambda>_. 0"]
  from t c have "queues (newProcessor 1 [(''C'', 1), (''A'', 3), (''B'', 2)] True (\<lambda>_ _ _. 0))
      [(''B'', 2), (''C'', 1), (''A'', 3)] (\<lambda>_. 0) = [''A'', ''B'', ''C'']"
    by blast
  moreover from t have "queues (newProcessor 1 [(''C'', 1), (''A'', 3), (''B'', 2)] True (\<lambda>_ _ _. 0))
      [(''B'', 2), (''C'', 1), (''A'', 3)] (\<lambda>_. 0) = sortByPriority [(''C'', 1), (''A'', 3), (''B'', 2)]"
    by blast
  ultimately show ?thesis by simp
qed

text \<open>
  Weighted-random mode where \<open>int(priority)\<close> does not wrap. With strict priority off,
  more than one queue and every weight positive as a signed \<open>int\<close>, for every iteration
  order and every outcome of the shuffle: the shuffled list is a permutation of the list
  holding each name as often as its weight, and \<open>queues\<close> returns its first occurrences,
  in which every configured name stands exactly once and whose length is the number of
  queues.
\<close>

lemma weighted_random_queues:
  assumes "distinct (map fst qcfg)" and "mset ord = mset qcfg" and "1 < length qcfg"
    and "\<forall>(q, w) \<in> set qcfg. 0 < sint w"
  shows "mset (Shuffle rnd (names_of ord)) = mset (names_of ord)
       \<and> (\<forall>(q, w) \<in> set qcfg. count (mset (names_of ord)) q = nat (sint w))
       \<and> queues (newProcessor n qcfg False fn) ord rnd
           = first_occurrences (Shuffle rnd (names_of ord))
       \<and> distinct (queues (newProcessor n qcfg False fn) ord rnd)
       \<and> set (queues (newProcessor n qcfg False fn) ord rnd) = fst ` set qcfg
       \<and> length (queues (newProcessor n qcfg False fn) ord rnd) = length qcfg"
proof -
  have ne: "length qcfg \<noteq> 1" using assms(3) by simp
  have so: "set ord = set qcfg" using assms(2) by (rule mset_eq_setD)
  have dord: "distinct (map fst ord)"
    using assms(1,2) by (metis distinct_map mset_eq_imp_distinct_iff so)
  have q: "queues (newProcessor n qcfg False fn) ord rnd
           = first_occurrences (Shuffle rnd (names_of ord))"
    using queues_weighted [OF assms(1,2) ne] .
  have c: "\<forall>(q, w) \<in> set qcfg. count (mset (names_of ord)) q = nat (sint w)"
    using count_names_of [OF dord] so by auto
  have all: "filter (\<lambda>(q, w). 0 < sint w) qcfg = qcfg"
    using assms(4) by (auto simp: filter_id_conv)
  have "set (Shuffle rnd (names_of ord)) = set (names_of ord)"
    using mset_Shuffle [of rnd "names_of ord"] by (rule mset_eq_setD)
  also have "\<dots> = fst ` set qcfg"
    using so assms(4) by (auto simp: set_names_of rev_image_eqI)
  finally have s: "set (queues (newProcessor n qcfg False fn) ord rnd) = fst ` set qcfg"
    using q by (simp add: first_occurrences_set)
  have l: "length (queues (newProcessor n qcfg False fn) ord rnd) = length qcfg"
    using length_queues_weighted [OF assms(1,2) ne, of n fn rnd] all by simp
  show ?thesis
    using q c s l by (simp add: mset_Shuffle first_occurrences_distinct)
qed

lemma weighted_random_queues_example:
  "distinct (queues (newProcessor 1 [(''A'', 3), (''B'', 1)] False (\<lambda>_ _ _. 0))
      [(''B'', 1), (''A'', 3)] (\<lambda>i. i))
   \<and> set (queues (newProcessor 1 [(''A'', 3), (''B'', 1)] False (\<lambda>_ _ _. 0))
      [(''B'', 1), (''A'', 3)] (\<lambda>i. i)) = {''A'', ''B''}
   \<and> length (queues (newProcessor 1 [(''A'', 3), (''B'', 1)] False (\<lambda>_ _ _. 0))
      [(''B'', 1), (''A'', 3)] (\<lambda>i. i)) = 2"
proof -
  have d: "distinct (map fst [(''A'', 3), (''B'', 1 :: uint)])" by simp
  have m: "mset [(''B'', 1), (''A'', 3 :: uint)] = mset [(''A'', 3), (''B'', 1)]" by simp
  have l: "1 < length [(''A'', 3), (''B'', 1 :: uint)]" by simp
  have w: "\<forall>(q, w) \<in> set [(''A'', 3), (''B'', 1 :: uint)]. 0 < sint w" by simp
  let ?r = "queues (newProcessor 1 [(''A'', 3), (''B'', 1)] False (\<lambda>_ _ _. 0))
      [(''B'', 1), (''A'', 3)] (\<lambda>i. i)"
  note t = weighted_random_queues [OF d m l w, of "\<lambda>i. i" 1 "\<lambda>_ _ _. 0"]
  from t have "distinct ?r" by blast
  moreover from t have "set ?r = fst ` set [(''A'', 3), (''B'', 1 :: uint)]" by blast
  then have "set ?r = {''A'', ''B''}" by simp
  moreover from t have "length ?r = length [(''A'', 3), (''B'', 1 :: uint)]" by blast
  then have "length ?r = 2" by simp
  ultimately show ?thesis by blast
qed

text \<open>
  Claim C4 asks that in weighted-random mode every queue of positive weight stands in the
  answer exactly once. The loop of \<open>queues\<close> means to append each name \<open>priority\<close>
  times, but counts with \<open>int(priority)\<close>: for the weight \<open>2^63\<close>, which is positive,
  the count is negative and the name is never appended. For \<open>{a: 2^63, b: 1}\<close> the
  answer is \<open>[b]\<close>, and \<open>a\<close> is never polled; the strict path, which compares the
  weights as they are, returns \<open>[a, b]\<close> for the same configuration.
\<close>

theorem weighted_queues_wrapped_weight:
  "(0 :: uint) < 2 ^ 63 \<and> (0 :: uint) < 1
   \<and> queues (newProcessor 1 [(''a'', 2 ^ 63), (''b'', 1)] False no_delay)
        [(''a'', 2 ^ 63), (''b'', 1)] rnd0 = [''b'']
   \<and> queues (newProcessor 1 [(''a'', 2 ^ 63), (''b'', 1)] True no_delay)
        [(''a'', 2 ^ 63), (''b'', 1)] rnd0 = [''a'', ''b'']"
  by (simp add: queues_def newProcessor_def uniq_def Shuffle_def names_of_def go_slice_def
      sortByPriority_def sort_Sort_Reverse_def reverse_less_def Less_def)

text \<open>
  A queue of weight \<open>0\<close>. With strict priority off and more than one queue, it has no
  copy in the replicated list and is in no answer of \<open>queues\<close>, whatever the shuffle; the
  answer has one name for each queue that the loop appends at least once, which is fewer
  than there are configured queues.
\<close>

lemma zero_weight_queue_never_polled:
  assumes "distinct (map fst qcfg)" and "mset ord = mset qcfg" and "1 < length qcfg"
    and "(q0, 0) \<in> set qcfg"
  shows "count (mset (names_of ord)) q0 = 0
       \<and> q0 \<notin> set (queues (newProcessor n qcfg False fn) ord rnd)
       \<and> length (queues (newProcessor n qcfg False fn) ord rnd)
           = length (filter (\<lambda>(q, w). 0 < sint w) qcfg)
       \<and> length (queues (newProcessor n qcfg False fn) ord rnd) < length qcfg"
proof -
  have ne: "length qcfg \<noteq> 1" using assms(3) by simp
  have so: "set ord = set qcfg" using assms(2) by (rule mset_eq_setD)
  have dord: "distinct (map fst ord)"
    using assms(1,2) by (metis distinct_map mset_eq_imp_distinct_iff so)
  have c: "count (mset (names_of ord)) q0 = 0"
    using count_names_of [OF dord, of q0 0] assms(4) so by simp
  then have "q0 \<notin> set (names_of ord)" by (simp add: count_eq_zero_iff)
  then have "q0 \<notin> set (Shuffle rnd (names_of ord))"
    using mset_Shuffle [of rnd "names_of ord", THEN mset_eq_setD] by simp
  then have n: "q0 \<notin> set (queues (newProcessor n qcfg False fn) ord rnd)"
    using queues_weighted [OF assms(1,2) ne] by (simp add: first_occurrences_set)
  have l: "length (queues (newProcessor n qcfg False fn) ord rnd)
           = length (filter (\<lambda>(q, w). 0 < sint w) qcfg)"
    using length_queues_weighted [OF assms(1,2) ne] .
  have "length (filter (\<lambda>(q, w). 0 < sint w) qcfg) < length qcfg"
    using assms(4) by (intro length_filter_less [of "(q0, 0)"]) auto
  with c n l show ?thesis by simp
qed

lemma zero_weight_queue_never_polled_example:
  "''A'' \<notin> set (queues (newProcessor 1 [(''A'', 0), (''B'', 2)] False (\<lambda>_ _ _. 0))
      [(''B'', 2), (''A'', 0)] (\<lambda>_. 0))
   \<and> length (queues (newProcessor 1 [(''A'', 0), (''B'', 2)] False (\<lambda>_ _ _. 0))
      [(''B'', 2), (''A'', 0)] (\<lambda>_. 0)) = 1"
proof -
  have d: "distinct (map fst [(''A'', 0), (''B'', 2 :: uint)])" by simp
  have m: "mset [(''B'', 2), (''A'', 0 :: uint)] = mset [(''A'', 0), (''B'', 2)]" by simp
  have l: "1 < length [(''A'', 0), (''B'', 2 :: uint)]" by simp
  have z: "(''A'', 0) \<in> set [(''A'', 0), (''B'', 2 :: uint)]" by simp
  let ?r = "queues (newProcessor 1 [(''A'', 0), (''B'', 2)] False (\<lambda>_ _ _. 0))
      [(''B'', 2), (''A'', 0)] (\<lambda>_. 0)"
  note t = zero_weight_queue_never_polled [OF d m l z, of 1 "\<lambda>_ _ _. 0" "\<lambda>_. 0"]
  from t have "''A'' \<notin> set ?r" by blast
  moreover from t
  have "length ?r = length (filter (\<lambda>(q, w). 0 < sint w) [(''A'', 0), (''B'', 2 :: uint)])"
    by blast
  then have "length ?r = 1" by simp
  ultimately show ?thesis by blast
qed

text \<open>
  Claim C10 asks that in weighted-random mode only the queues of weight \<open>0\<close> are left
  out, so that the answer is as long as there are queues of positive weight. Through the
  same \<open>int(priority)\<close> of the loop of \<open>queues\<close>, a queue of weight \<open>2^63\<close> is left out
  as well: for \<open>{a: 0, b: 2^63, c: 1}\<close> two queues have a positive weight, and the
  answer \<open>[c]\<close> has one name; the strict path returns all three, \<open>b\<close> first.
\<close>

theorem zero_weight_wrapped_weight:
  "queues (newProcessor 1 [(''a'', 0), (''b'', 2 ^ 63), (''c'', 1)] False no_delay)
        [(''a'', 0), (''b'', 2 ^ 63), (''c'', 1)] rnd0 = [''c'']
   \<and> length (filter (\<lambda>(q, w). 0 < w) [(''a'', 0), (''b'', 2 ^ 63), (''c'', 1 :: uint)]) = 2
   \<and> queues (newProcessor 1 [(''a'', 0), (''b'', 2 ^ 63), (''c'', 1)] True no_delay)
        [(''a'', 0), (''b'', 2 ^ 63), (''c'', 1)] rnd0 = [''b'', ''c'', ''a'']"
  by (simp add: queues_def newProcessor_def uniq_def Shuffle_def names_of_def go_slice_def
      sortByPriority_def sort_Sort_Reverse_def reverse_less_def Less_def)

section \<open>What holds in every state the processor reaches\<close>

lemma length_filter_update:
  "i < length xs \<Longrightarrow>
   length (filter P (xs[i := y])) + (if P (xs ! i) then 1 else 0)
   = length (filter P xs) + (if P y then 1 else 0)"
proof (induction xs arbitrary: i)
  case Nil
  then show ?case by simp
next
  case (Cons x xs)
  then show ?case by (cases i) auto
qed

lemma set_update_other: "x \<in> set (xs[i := y]) \<Longrightarrow> x \<noteq> y \<Longrightarrow> x \<in> set xs"
  using set_update_subset_insert [of xs i y] by auto

lemma signals_ok_init: "signals_ok (init p st t)"
  by (simp add: signals_ok_def init_def)

text \<open>What a step of \<open>stop\<close> leaves alone.\<close>

lemma stop_step_frame:
  assumes "stop_step pc s = Some (pc', s')"
  shows "now s' = now s" "timer s' = timer s" "quit_closed s' = quit_closed s"
    "stoppers s' = stoppers s" "terminator s' = terminator s" "workers s' = workers s"
    "calls s' = calls s" "rdb s' = rdb s" "sema s' = sema s" "proc s' = proc s"
  using assms
  by (cases pc; cases "once s"; auto simp: close_abort_def split: f_pc.splits if_splits)+

lemma stop_step_signals:
  assumes ok: "signals_ok s" and st: "stop_step pc s = Some (pc', s')"
  shows "\<not> panicked s'"
    and "abort_closed s' \<longleftrightarrow> once s' = OnceRunning FSend \<or> once s' = OnceDone"
    and "done_sent s' = (if once s' = OnceDone then 1 else 0)"
    and "once s' = OnceDone \<longrightarrow> loop s' = LExited"
    and "pc' = SReturned \<longrightarrow> once s' = OnceDone"
    and "once s = OnceDone \<longrightarrow> once s' = OnceDone"
  using assms unfolding signals_ok_def
  by (cases pc; cases "once s"; auto simp: close_abort_def split: f_pc.splits if_splits)+

lemma signals_ok_stopper:
  assumes ok: "signals_ok s" and st: "stopper_step i s = Some s'"
  shows "signals_ok s'"
proof -
  from st obtain pc' s1 where i: "i < length (stoppers s)"
      and s1: "stop_step (stoppers s ! i) s = Some (pc', s1)"
      and s': "s' = s1\<lparr>stoppers := (stoppers s1)[i := pc']\<rparr>"
    by (auto simp: stopper_step_def split: if_splits option.splits)
  note fr = stop_step_frame [OF s1]
  note sg = stop_step_signals [OF ok s1]
  have ret: "SReturned \<in> set ((stoppers s)[i := pc']) \<longrightarrow> once s1 = OnceDone"
    using set_update_other [of SReturned "stoppers s" i pc'] sg(5,6) ok
    unfolding signals_ok_def by blast
  show ?thesis
    using ok sg ret unfolding s' signals_ok_def by (simp add: fr)
qed

lemma signals_ok_terminate:
  assumes ok: "signals_ok s" and st: "terminate_step err s = Some s'"
  shows "signals_ok s'"
proof (cases "terminator s")
  case TIdle
  then show ?thesis using st by (simp add: terminate_step_def)
next
  case (TStop pc)
  with st obtain pc' s1 where s1: "stop_step pc s = Some (pc', s1)"
      and s': "s' = s1\<lparr>terminator := (if pc' = SReturned then TAfterFunc else TStop pc')\<rparr>"
    by (auto simp: terminate_step_def split: option.splits)
  note fr = stop_step_frame [OF s1]
  note sg = stop_step_signals [OF ok s1]
  show ?thesis
    using ok sg TStop unfolding s' signals_ok_def by (simp add: fr)
next
  case TAfterFunc
  then have "s' = s\<lparr>timer := Armed (now s), terminator := TAcquire 0\<rparr>"
    using st by (simp add: terminate_step_def)
  then show ?thesis using ok TAfterFunc unfolding signals_ok_def by simp
next
  case (TAcquire i)
  then show ?thesis using ok st unfolding signals_ok_def
    by (auto simp: terminate_step_def restore_def store_call_def split: if_splits)
next
  case TReturned
  then show ?thesis using st by (simp add: terminate_step_def)
qed

lemma timeout_pos: "0 \<le> timeout"
  by (simp add: timeout_def Second_def)

lemma signals_ok_timer:
  assumes ok: "signals_ok s" and st: "timer_fire s = Some s'"
  shows "signals_ok s'"
proof -
  from st obtain t0 where t: "timer s = Armed t0" "t0 + timeout \<le> now s"
      and s': "s' = (close_quit s)\<lparr>timer := Fired t0\<rparr>"
    by (auto simp: timer_fire_def split: timer_state.splits if_splits)
  have "\<not> quit_closed s" using ok t unfolding signals_ok_def by simp
  then show ?thesis using ok t unfolding s' signals_ok_def close_quit_def by simp
qed

lemma signals_ok_loop:
  assumes ok: "signals_ok s" and l: "loop s \<noteq> LExited" "loop s' \<noteq> LExited"
    and fr: "panicked s' = panicked s" "abort_closed s' = abort_closed s" "once s' = once s"
      "done_sent s' = done_sent s" "stoppers s' = stoppers s" "terminator s' = terminator s"
      "timer s' = timer s" "quit_closed s' = quit_closed s" "now s' = now s"
  shows "signals_ok s'"
  using ok l unfolding signals_ok_def fr by auto

lemma signals_ok_worker:
  assumes ok: "signals_ok s" 
    and fr: "panicked s' = panicked s" "abort_closed s' = abort_closed s" "once s' = once s"
      "done_sent s' = done_sent s" "stoppers s' = stoppers s" "terminator s' = terminator s"
      "timer s' = timer s" "quit_closed s' = quit_closed s" "now s' = now s" "loop s' = loop s"
  shows "signals_ok s'"
  using ok unfolding signals_ok_def fr by auto

lemmas op_defs = restore_def requeue_def markAsDone_def retry_def kill_def finish_def store_call_def

lemma signals_ok_step:
  assumes ok: "signals_ok s" and st: "step a s = Some s'"
  shows "signals_ok s'"
proof -
  have np: "\<not> panicked s" and as: "action_step a s = Some s'"
    using st by (auto simp: step_def split: if_splits)
  show ?thesis
  proof (cases a)
    case (Tick d)
    then have "s' = s\<lparr>now := now s + int d\<rparr>" using as by simp
    then show ?thesis using ok unfolding signals_ok_def by auto
  next
    case (Start err)
    then have "loop s = NotStarted" "s' = (restore err s)\<lparr>loop := LTop\<rparr>"
      using as by (auto simp: start_def split: if_splits)
    then show ?thesis using ok
      by (intro signals_ok_loop [OF ok]) (simp_all add: op_defs)
  next
    case CallStop
    then have "s' = s\<lparr>stoppers := stoppers s @ [SCall]\<rparr>" using as by simp
    then show ?thesis using ok unfolding signals_ok_def by auto
  next
    case CallTerminate
    then have "s' = s\<lparr>terminator := TStop SCall\<rparr>" "terminator s = TIdle"
      using as by (auto split: if_splits)
    then show ?thesis using ok unfolding signals_ok_def by auto
  next
    case (StopStep i)
    then show ?thesis using signals_ok_stopper [OF ok] as by simp
  next
    case (TermStep err)
    then show ?thesis using signals_ok_terminate [OF ok] as by simp
  next
    case TimerFire
    then show ?thesis using signals_ok_timer [OF ok] as by simp
  next
    case (LoopExec ord rnd err)
    then have e: "exec_dequeue ord rnd err s = Some s'" using as by simp
    then have "loop s = LTop" by (auto simp: exec_dequeue_def split: if_splits)
    then show ?thesis using e
      by (intro signals_ok_loop [OF ok])
        (auto simp: exec_dequeue_def op_defs Let_def split: if_splits option.splits)
  next
    case LoopWake
    then show ?thesis using as
      by (intro signals_ok_loop [OF ok])
        (auto simp: loop_wake_def split: if_splits loop_pc.splits)
  next
    case (LoopAbort err)
    then show ?thesis using as
      by (intro signals_ok_loop [OF ok])
        (auto simp: exec_abort_def op_defs split: if_splits loop_pc.splits)
  next
    case LoopAcquire
    then show ?thesis using as
      by (intro signals_ok_loop [OF ok])
        (auto simp: exec_acquire_def split: if_splits loop_pc.splits)
  next
    case (WorkerSpawn i)
    then show ?thesis using as
      by (intro signals_ok_worker [OF ok]) (auto simp: worker_spawn_def split: if_splits)
  next
    case (HandlerReturn i)
    then show ?thesis using as
      by (intro signals_ok_worker [OF ok]) (auto simp: handler_return_def Let_def split: if_splits)
  next
    case (WorkerQuit i)
    then show ?thesis using as
      by (intro signals_ok_worker [OF ok]) (auto simp: worker_quit_def split: if_splits)
  next
    case (WorkerResult i err)
    then show ?thesis using as
      by (intro signals_ok_worker [OF ok])
        (auto simp: worker_result_def op_defs Let_def split: if_splits handler_pc.splits option.splits)
  next
    case (WorkerRelease i)
    then show ?thesis using as
      by (intro signals_ok_worker [OF ok]) (auto simp: worker_release_def split: if_splits)
  qed
qed


lemma list_all_update: "list_all P xs \<Longrightarrow> P y \<Longrightarrow> list_all P (xs[i := y])"
  using set_update_subset_insert [of xs i y] by (auto simp: list_all_iff)

lemma worker_update_counts:
  assumes "i < length (workers s)" and "workers s' = (workers s)[i := w]"
  shows "live_workers s' + (if wpc (workers s ! i) \<noteq> WExited then 1 else 0)
         = live_workers s + (if wpc w \<noteq> WExited then 1 else 0)"
    and "pending s' + (if wpc (workers s ! i) = WStart \<or> hpc (workers s ! i) = HRunning then 1 else 0)
         = pending s + (if wpc w = WStart \<or> hpc w = HRunning then 1 else 0)"
  unfolding live_workers_def pending_def assms(2)
  using length_filter_update [OF assms(1), of "\<lambda>w. wpc w \<noteq> WExited" w]
    length_filter_update [OF assms(1), of "\<lambda>w. wpc w = WStart \<or> hpc w = HRunning" w]
  by simp_all

lemma pending_le_live:
  "list_all (worker_ok False) ws \<Longrightarrow>
   length (filter (\<lambda>w. wpc w = WStart \<or> hpc w = HRunning) ws)
   \<le> length (filter (\<lambda>w. wpc w \<noteq> WExited) ws)"
  by (induction ws) (auto simp: worker_ok_def)

lemma worker_ok_mono: "worker_ok q w \<Longrightarrow> worker_ok True w"
  by (simp add: worker_ok_def)

lemma no_live_worker:
  assumes "live_workers s = 0" and "i < length (workers s)"
  shows "wpc (workers s ! i) = WExited"
proof (rule ccontr)
  assume "wpc (workers s ! i) \<noteq> WExited"
  then have "workers s ! i \<in> set (filter (\<lambda>w. wpc w \<noteq> WExited) (workers s))"
    using assms(2) by simp
  then have "filter (\<lambda>w. wpc w \<noteq> WExited) (workers s) \<noteq> []" by force
  then show False using assms(1) by (simp add: live_workers_def)
qed

lemma term_tokens_cong:
  "terminator s' = terminator s \<Longrightarrow> proc s' = proc s \<Longrightarrow> term_tokens s' = term_tokens s"
  by (simp add: term_tokens_def)

lemma live_workers_cong: "workers s' = workers s \<Longrightarrow> live_workers s' = live_workers s"
  by (simp add: live_workers_def)

lemma pending_cong: "workers s' = workers s \<Longrightarrow> pending s' = pending s"
  by (simp add: pending_def)

text \<open>A step that replaces one worker keeps the count of tokens and the bound on handlers.\<close>

lemma worker_update_ok:
  assumes t: "tokens_ok s" and w: "workers_ok s"
    and i: "i < length (workers s)" and upd: "workers s' = (workers s)[i := w]"
    and sem: "sema s' + (if wpc (workers s ! i) \<noteq> WExited then 1 else 0)
              = sema s + (if wpc w \<noteq> WExited then 1 else 0)"
    and fr: "proc s' = proc s" "terminator s' = terminator s" "quit_closed s' = quit_closed s"
    and wok: "worker_ok (quit_closed s) w"
    and live: "wpc (workers s ! i) = WExited \<Longrightarrow> wpc w = WExited"
    and pen: "wpc w = WStart \<or> hpc w = HRunning \<Longrightarrow>
              wpc (workers s ! i) = WStart \<or> hpc (workers s ! i) = HRunning"
  shows "tokens_ok s' \<and> workers_ok s'"
proof -
  note c = worker_update_counts [OF i upd]
  note tt = term_tokens_cong [OF fr(2) fr(1)]
  have t': "tokens_ok s'"
    using t c(1) sem live unfolding tokens_ok_def tt fr by (simp split: if_splits)
  have "pending s' \<le> pending s" using c(2) pen by (simp split: if_splits)
  moreover have "list_all (worker_ok (quit_closed s')) (workers s')"
    using w wok unfolding workers_ok_def upd fr by (simp add: list_all_update)
  ultimately have "workers_ok s'" using w unfolding workers_ok_def fr by simp
  with t' show ?thesis by simp
qed

lemma nth_worker_ok: "workers_ok s \<Longrightarrow> i < length (workers s) \<Longrightarrow> worker_ok (quit_closed s) (workers s ! i)"
  by (simp add: workers_ok_def list_all_length)

lemma worker_spawn_ok:
  assumes "tokens_ok s" "workers_ok s" "worker_spawn i s = Some s'"
  shows "tokens_ok s' \<and> workers_ok s'"
proof -
  let ?w = "(workers s ! i)\<lparr>wpc := WSelect, hpc := HRunning\<rparr>"
  from assms(3) have i: "i < length (workers s)" and o: "wpc (workers s ! i) = WStart"
    and s': "s' = s\<lparr>workers := (workers s)[i := ?w], calls := calls s @ [Invoke (wmsg (workers s ! i))]\<rparr>"
    by (auto simp: worker_spawn_def split: if_splits)
  show ?thesis
    by (rule worker_update_ok [OF assms(1,2) i, of s' ?w]) (simp_all add: s' o worker_ok_def)
qed

lemma handler_return_ok:
  assumes "tokens_ok s" "workers_ok s" "handler_return i s = Some s'"
  shows "tokens_ok s' \<and> workers_ok s'"
proof -
  from assms(3) obtain r where i: "i < length (workers s)" and o: "hpc (workers s ! i) = HRunning"
    and s': "s' = s\<lparr>workers := (workers s)[i := (workers s ! i)\<lparr>hpc := HSent r\<rparr>]\<rparr>"
    by (auto simp: handler_return_def Let_def split: if_splits)
  have "worker_ok (quit_closed s) ((workers s ! i)\<lparr>hpc := HSent r\<rparr>)"
    using nth_worker_ok [OF assms(2) i] o by (simp add: worker_ok_def)
  then show ?thesis
    by (intro worker_update_ok [OF assms(1,2) i, of s' "(workers s ! i)\<lparr>hpc := HSent r\<rparr>"])
      (simp_all add: s' o)
qed

lemma worker_quit_ok:
  assumes "tokens_ok s" "workers_ok s" "worker_quit i s = Some s'"
  shows "tokens_ok s' \<and> workers_ok s'"
proof -
  let ?w = "(workers s ! i)\<lparr>wpc := WRelease\<rparr>"
  from assms(3) have i: "i < length (workers s)" and o: "wpc (workers s ! i) = WSelect" "quit_closed s"
    and s': "s' = s\<lparr>workers := (workers s)[i := ?w]\<rparr>"
    by (auto simp: worker_quit_def split: if_splits)
  have "worker_ok (quit_closed s) ?w"
    using nth_worker_ok [OF assms(2) i] o by (simp add: worker_ok_def)
  then show ?thesis
    by (intro worker_update_ok [OF assms(1,2) i, of s' ?w]) (simp_all add: s' o)
qed

lemma worker_result_ok:
  assumes "tokens_ok s" "workers_ok s" "worker_result i err s = Some s'"
  shows "tokens_ok s' \<and> workers_ok s'"
proof -
  let ?w = "(workers s ! i)\<lparr>wpc := WRelease\<rparr>"
  from assms(3) obtain r where i: "i < length (workers s)" and o: "wpc (workers s ! i) = WSelect"
    "hpc (workers s ! i) = HSent r"
    and s': "s' = (finish (wmsg (workers s ! i)) r err s)\<lparr>workers := (workers s)[i := ?w]\<rparr>"
    by (auto simp: worker_result_def Let_def op_defs split: if_splits handler_pc.splits option.splits)
  have "worker_ok (quit_closed s) ?w"
    using nth_worker_ok [OF assms(2) i] o by (simp add: worker_ok_def)
  then show ?thesis
    by (intro worker_update_ok [OF assms(1,2) i, of s' ?w])
      (simp_all add: s' o op_defs Let_def split: option.splits)
qed

lemma worker_release_ok:
  assumes "tokens_ok s" "workers_ok s" "worker_release i s = Some s'"
  shows "tokens_ok s' \<and> workers_ok s'"
proof -
  let ?w = "(workers s ! i)\<lparr>wpc := WExited\<rparr>"
  from assms(3) have i: "i < length (workers s)" and o: "wpc (workers s ! i) = WRelease" "0 < sema s"
    and s': "s' = s\<lparr>sema := sema s - 1, workers := (workers s)[i := ?w]\<rparr>"
    by (auto simp: worker_release_def split: if_splits)
  have "worker_ok (quit_closed s) ?w"
    using nth_worker_ok [OF assms(2) i] o by (simp add: worker_ok_def)
  then show ?thesis
    by (intro worker_update_ok [OF assms(1,2) i, of s' ?w]) (simp_all add: s' o)
qed


lemma worker_ok_imp: "worker_ok q w \<Longrightarrow> (q \<longrightarrow> q') \<Longrightarrow> worker_ok q' w"
  by (auto simp: worker_ok_def)

lemma frame_ok:
  assumes "tokens_ok s" and "workers_ok s"
    and "workers s' = workers s" "sema s' = sema s" "proc s' = proc s"
    and "term_tokens s' = term_tokens s" and "quit_closed s \<longrightarrow> quit_closed s'"
  shows "tokens_ok s' \<and> workers_ok s'"
proof -
  have "list_all (worker_ok (quit_closed s')) (workers s)"
    using assms(2,7) unfolding workers_ok_def list_all_iff by (blast intro: worker_ok_imp)
  then show ?thesis
    using assms(1,2) live_workers_cong [OF assms(3)] pending_cong [OF assms(3)]
    unfolding tokens_ok_def workers_ok_def assms(3,4,5,6) by simp
qed

lemma terminate_step_ok:
  assumes t: "tokens_ok s" and w: "workers_ok s" and st: "terminate_step err s = Some s'"
  shows "tokens_ok s' \<and> workers_ok s'"
proof (cases "terminator s")
  case TIdle
  then show ?thesis using st by (simp add: terminate_step_def)
next
  case (TStop pc)
  with st obtain pc' s1 where s1: "stop_step pc s = Some (pc', s1)"
      and s': "s' = s1\<lparr>terminator := (if pc' = SReturned then TAfterFunc else TStop pc')\<rparr>"
    by (auto simp: terminate_step_def split: option.splits)
  note fr = stop_step_frame [OF s1]
  show ?thesis
    by (rule frame_ok [OF t w]) (simp_all add: s' fr term_tokens_def TStop)
next
  case TAfterFunc
  then have s': "s' = s\<lparr>timer := Armed (now s), terminator := TAcquire 0\<rparr>"
    using st by (simp add: terminate_step_def)
  show ?thesis
    by (rule frame_ok [OF t w]) (simp_all add: s' term_tokens_def TAfterFunc)
next
  case (TAcquire i)
  show ?thesis
  proof (cases "i < sema_cap (proc s)")
    case True
    then have s': "s' = s\<lparr>sema := sema s + 1, terminator := TAcquire (i + 1)\<rparr>"
      and lt: "sema s < sema_cap (proc s)"
      using st TAcquire by (auto simp: terminate_step_def split: if_splits)
    have "tokens_ok s'"
      using t lt True TAcquire unfolding tokens_ok_def s'
      by (simp add: term_tokens_def live_workers_def)
    moreover have "workers_ok s'"
      using w unfolding workers_ok_def s' by (simp add: pending_def)
    ultimately show ?thesis by simp
  next
    case False
    then have s': "s' = (restore err s)\<lparr>terminator := TReturned\<rparr>"
      using st TAcquire by (auto simp: terminate_step_def split: if_splits)
    have "i = sema_cap (proc s)"
      using t False TAcquire by (simp add: tokens_ok_def term_tokens_def)
    then show ?thesis
      by (intro frame_ok [OF t w]) (simp_all add: s' op_defs term_tokens_def TAcquire)
  qed
next
  case TReturned
  then show ?thesis using st by (simp add: terminate_step_def)
qed

lemma not_quit_while_running:
  assumes "signals_ok s" and "loop s \<noteq> LExited"
  shows "\<not> quit_closed s"
proof -
  have "once s \<noteq> OnceDone" using assms unfolding signals_ok_def by blast
  then have "\<not> past_stop (terminator s)" using assms(1) unfolding signals_ok_def by blast
  then have "\<not> scheduled (terminator s)" by (cases "terminator s") simp_all
  then have "timer s = TimerNone" using assms(1) unfolding signals_ok_def by blast
  then show ?thesis using assms(1) unfolding signals_ok_def by simp
qed

lemma exec_acquire_ok:
  assumes sg: "signals_ok s" and t: "tokens_ok s" and w: "workers_ok s"
    and st: "exec_acquire s = Some s'"
  shows "tokens_ok s' \<and> workers_ok s'"
proof -
  from st obtain msg where l: "loop s = LHolding msg" and lt: "sema s < sema_cap (proc s)"
    and s': "s' = s\<lparr>sema := sema s + 1,
                     workers := workers s @ [\<lparr>wmsg = msg, wpc = WStart, hpc = HNone\<rparr>],
                     loop := LTop\<rparr>"
    by (auto simp: exec_acquire_def split: loop_pc.splits if_splits)
  have nq: "\<not> quit_closed s" using not_quit_while_running [OF sg] l by simp
  have "tokens_ok s'"
    using t lt unfolding tokens_ok_def s' by (simp add: term_tokens_def live_workers_def)
  moreover have "pending s \<le> live_workers s"
    using w nq pending_le_live [of "workers s"]
    unfolding workers_ok_def pending_def live_workers_def by simp
  then have "pending s' \<le> sema_cap (proc s')"
    using t lt unfolding tokens_ok_def s' by (simp add: pending_def)
  moreover have "list_all (worker_ok (quit_closed s')) (workers s')"
    using w unfolding workers_ok_def s' by (simp add: worker_ok_def)
  ultimately show ?thesis unfolding workers_ok_def by simp
qed

lemma tokens_workers_ok_step:
  assumes sg: "signals_ok s" and t: "tokens_ok s" and w: "workers_ok s"
    and st: "step a s = Some s'"
  shows "tokens_ok s' \<and> workers_ok s'"
proof -
  have as: "action_step a s = Some s'"
    using st by (auto simp: step_def split: if_splits)
  show ?thesis
  proof (cases a)
    case (Tick d)
    then show ?thesis using as
      by (intro frame_ok [OF t w]) (auto simp: term_tokens_def)
  next
    case (Start err)
    then show ?thesis using as
      by (intro frame_ok [OF t w]) (auto simp: start_def op_defs term_tokens_def split: if_splits)
  next
    case CallStop
    then show ?thesis using as
      by (intro frame_ok [OF t w]) (auto simp: term_tokens_def)
  next
    case CallTerminate
    then show ?thesis using as
      by (intro frame_ok [OF t w]) (auto simp: term_tokens_def split: if_splits)
  next
    case (StopStep i)
    then obtain pc' s1 where s1: "stop_step (stoppers s ! i) s = Some (pc', s1)"
      and s': "s' = s1\<lparr>stoppers := (stoppers s1)[i := pc']\<rparr>"
      using as by (auto simp: stopper_step_def split: if_splits option.splits)
    note fr = stop_step_frame [OF s1]
    show ?thesis
      by (rule frame_ok [OF t w]) (simp_all add: s' fr term_tokens_def)
  next
    case (TermStep err)
    then show ?thesis using terminate_step_ok [OF t w] as by simp
  next
    case TimerFire
    then show ?thesis using as
      by (intro frame_ok [OF t w])
        (auto simp: timer_fire_def close_quit_def term_tokens_def split: timer_state.splits if_splits)
  next
    case (LoopExec ord rnd err)
    then show ?thesis using as
      by (intro frame_ok [OF t w])
        (auto simp: exec_dequeue_def op_defs Let_def term_tokens_def split: if_splits option.splits)
  next
    case LoopWake
    then show ?thesis using as
      by (intro frame_ok [OF t w])
        (auto simp: loop_wake_def term_tokens_def split: if_splits loop_pc.splits)
  next
    case (LoopAbort err)
    then show ?thesis using as
      by (intro frame_ok [OF t w])
        (auto simp: exec_abort_def op_defs term_tokens_def split: if_splits loop_pc.splits)
  next
    case LoopAcquire
    then show ?thesis using exec_acquire_ok [OF sg t w] as by simp
  next
    case (WorkerSpawn i)
    then show ?thesis using worker_spawn_ok [OF t w] as by simp
  next
    case (HandlerReturn i)
    then show ?thesis using handler_return_ok [OF t w] as by simp
  next
    case (WorkerQuit i)
    then show ?thesis using worker_quit_ok [OF t w] as by simp
  next
    case (WorkerResult i err)
    then show ?thesis using worker_result_ok [OF t w] as by simp
  next
    case (WorkerRelease i)
    then show ?thesis using worker_release_ok [OF t w] as by simp
  qed
qed


lemma returned_quiet:
  assumes sg: "signals_ok s" and t: "tokens_ok s" and r: "terminator s = TReturned"
  shows "loop s = LExited" and "live_workers s = 0" and "once s = OnceDone"
proof -
  show o: "once s = OnceDone" using sg r unfolding signals_ok_def by simp
  then show "loop s = LExited" using sg unfolding signals_ok_def by simp
  show "live_workers s = 0" using t r unfolding tokens_ok_def term_tokens_def by simp
qed

lemma after_return_step:
  assumes sg: "signals_ok s" and t: "tokens_ok s" and r: "terminator s = TReturned"
    and st: "step a s = Some s'"
  shows "calls s' = calls s \<and> rdb s' = rdb s \<and> terminator s' = TReturned"
proof -
  have as: "action_step a s = Some s'"
    using st by (auto simp: step_def split: if_splits)
  note q = returned_quiet [OF sg t r]
  note nl = no_live_worker [OF q(2)]
  show ?thesis
  proof (cases a)
    case (StopStep i)
    then obtain pc' s1 where s1: "stop_step (stoppers s ! i) s = Some (pc', s1)"
      and s': "s' = s1\<lparr>stoppers := (stoppers s1)[i := pc']\<rparr>"
      using as by (auto simp: stopper_step_def split: if_splits option.splits)
    note fr = stop_step_frame [OF s1]
    show ?thesis by (simp add: s' fr r)
  next
    case (WorkerSpawn i)
    then show ?thesis using as nl [of i] by (auto simp: worker_spawn_def split: if_splits)
  next
    case (WorkerResult i err)
    then show ?thesis using as nl [of i] by (auto simp: worker_result_def split: if_splits)
  next
    case (HandlerReturn i)
    then show ?thesis using as r by (auto simp: handler_return_def Let_def split: if_splits)
  next
    case (WorkerQuit i)
    then show ?thesis using as r by (auto simp: worker_quit_def split: if_splits)
  next
    case (WorkerRelease i)
    then show ?thesis using as r by (auto simp: worker_release_def split: if_splits)
  next
    case TimerFire
    then show ?thesis using as r
      by (auto simp: timer_fire_def close_quit_def split: timer_state.splits if_splits)
  qed (use as r q in \<open>auto simp: start_def terminate_step_def exec_dequeue_def loop_wake_def
        exec_abort_def exec_acquire_def split: if_splits\<close>)
qed

lemma terminator_step:
  assumes "action_step a s = Some s'" and "terminator s \<noteq> TReturned" and "terminator s' = TReturned"
  shows "\<exists>err i. a = TermStep err \<and> terminator s = TAcquire i \<and> s' = (restore err s)\<lparr>terminator := TReturned\<rparr>"
proof (cases a)
  case (StopStep i)
  then obtain pc' s1 where s1: "stop_step (stoppers s ! i) s = Some (pc', s1)"
    and s': "s' = s1\<lparr>stoppers := (stoppers s1)[i := pc']\<rparr>"
    using assms(1) by (auto simp: stopper_step_def split: if_splits option.splits)
  note fr = stop_step_frame [OF s1]
  show ?thesis using assms(2,3) by (simp add: s' fr)
next
  case (TermStep err)
  then show ?thesis using assms
    by (auto simp: terminate_step_def split: term_pc.splits option.splits if_splits)
next
  case (WorkerResult i err)
  then show ?thesis using assms
    by (auto simp: worker_result_def op_defs Let_def split: if_splits handler_pc.splits option.splits)
next
  case (LoopExec ord rnd err)
  then show ?thesis using assms
    by (auto simp: exec_dequeue_def op_defs Let_def split: if_splits option.splits)
qed (use assms in \<open>auto simp: start_def timer_fire_def loop_wake_def exec_abort_def exec_acquire_def
      worker_spawn_def handler_return_def worker_quit_def worker_release_def op_defs
      close_quit_def Let_def
      split: if_splits timer_state.splits loop_pc.splits\<close>)

lemma returned_ok_step:
  assumes sg: "signals_ok s" and t: "tokens_ok s" and r: "returned_ok s"
    and st: "step a s = Some s'"
  shows "returned_ok s'"
proof (cases "terminator s = TReturned")
  case True
  from after_return_step [OF sg t True st] r True show ?thesis
    unfolding returned_ok_def by simp
next
  case False
  have as: "action_step a s = Some s'"
    using st by (auto simp: step_def split: if_splits)
  show ?thesis
  proof (cases "terminator s' = TReturned")
    case ret: True
    from terminator_step [OF as False ret] obtain err
      where "s' = (restore err s)\<lparr>terminator := TReturned\<rparr>" by blast
    then show ?thesis
      unfolding returned_ok_def by (simp add: op_defs rdb_RestoreUnfinished_def)
  next
    case False
    then show ?thesis unfolding returned_ok_def by simp
  qed
qed

lemma inv_init: "inv (init p st t)"
  by (simp add: inv_def signals_ok_init)
    (simp add: init_def tokens_ok_def workers_ok_def returned_ok_def live_workers_def
      term_tokens_def pending_def)

lemma inv_step: "inv s \<Longrightarrow> step a s = Some s' \<Longrightarrow> inv s'"
  unfolding inv_def
  using signals_ok_step tokens_workers_ok_step returned_ok_step by blast

lemma inv_run: "inv s \<Longrightarrow> run as s = Some s' \<Longrightarrow> inv s'"
proof (induction as arbitrary: s)
  case Nil
  then show ?case by simp
next
  case (Cons a as)
  then show ?case by (auto split: option.splits dest: inv_step)
qed

lemma reachable_inv: "run as (init p st t) = Some s \<Longrightarrow> inv s"
  using inv_run [OF inv_init] .

section \<open>Bounded concurrency and shutdown\<close>

lemma proc_step: "step a s = Some s' \<Longrightarrow> proc s' = proc s"
proof -
  assume st: "step a s = Some s'"
  then have as: "action_step a s = Some s'" by (auto simp: step_def split: if_splits)
  show ?thesis
  proof (cases a)
    case (StopStep i)
    then obtain pc' s1 where s1: "stop_step (stoppers s ! i) s = Some (pc', s1)"
      and s': "s' = s1\<lparr>stoppers := (stoppers s1)[i := pc']\<rparr>"
      using as by (auto simp: stopper_step_def split: if_splits option.splits)
    show ?thesis by (simp add: s' stop_step_frame [OF s1])
  next
    case (TermStep err)
    show ?thesis
    proof (cases "terminator s")
      case (TStop pc)
      with as TermStep obtain pc' s1 where s1: "stop_step pc s = Some (pc', s1)"
        and s': "s' = s1\<lparr>terminator := (if pc' = SReturned then TAfterFunc else TStop pc')\<rparr>"
        by (auto simp: terminate_step_def split: option.splits)
      show ?thesis by (simp add: s' stop_step_frame [OF s1])
    qed (use as TermStep in \<open>auto simp: terminate_step_def op_defs split: if_splits\<close>)
  next
    case (WorkerResult i err)
    then show ?thesis using as
      by (auto simp: worker_result_def op_defs Let_def split: if_splits handler_pc.splits option.splits)
  next
    case (LoopExec ord rnd err)
    then show ?thesis using as
      by (auto simp: exec_dequeue_def op_defs Let_def split: if_splits option.splits)
  qed (use as in \<open>auto simp: start_def timer_fire_def loop_wake_def exec_abort_def exec_acquire_def
      worker_spawn_def handler_return_def worker_quit_def worker_release_def op_defs
      close_quit_def Let_def
      split: if_splits timer_state.splits loop_pc.splits\<close>)
qed

lemma proc_run: "run as s = Some s' \<Longrightarrow> proc s' = proc s"
proof (induction as arbitrary: s)
  case Nil
  then show ?case by simp
next
  case (Cons a as)
  then show ?case by (auto split: option.splits dest: proc_step)
qed

lemma running_le_pending: "handlers_running s \<le> pending s"
proof -
  have "length (filter (\<lambda>w. hpc w = HRunning) ws)
        \<le> length (filter (\<lambda>w. wpc w = WStart \<or> hpc w = HRunning) ws)" for ws :: "worker list"
    by (induction ws) auto
  then show ?thesis by (simp add: handlers_running_def pending_def)
qed

text \<open>
  Claim C2. In every state of every run of a processor built with the limit \<open>n\<close>, at
  most \<open>n\<close> handler invocations are running, those of abandoned workers included. Each
  worker that has not yet released holds one token of \<open>sema\<close>, the other tokens are those
  \<open>terminate\<close> has put in, and \<open>sema\<close> never holds more than \<open>n\<close>: a worker starts with
  a token acquired, and at the deferred release, which both branches of its \<open>select\<close>
  lead to, it never waits and gives the token back.
\<close>

theorem bounded_concurrency:
  assumes "run as (init p st t) = Some s"
  shows "handlers_running s \<le> sema_cap p
       \<and> live_workers s + term_tokens s = sema s
       \<and> sema s \<le> sema_cap p
       \<and> (\<forall>i < length (workers s). wpc (workers s ! i) = WRelease \<longrightarrow>
             step (WorkerRelease i) s
             = Some (s\<lparr>sema := sema s - 1,
                       workers := (workers s)[i := (workers s ! i)\<lparr>wpc := WExited\<rparr>]\<rparr>))"
proof -
  have i: "inv s" using reachable_inv [OF assms] .
  have p: "proc s = p" using proc_run [OF assms] by (simp add: init_def)
  have np: "\<not> panicked s" using i unfolding inv_def signals_ok_def by blast
  have tk: "sema s = live_workers s + term_tokens s" "sema s \<le> sema_cap p"
    using i unfolding inv_def tokens_ok_def p by simp_all
  have h: "handlers_running s \<le> sema_cap p"
    using running_le_pending [of s] i unfolding inv_def workers_ok_def p by simp
  have "step (WorkerRelease i) s
        = Some (s\<lparr>sema := sema s - 1,
                  workers := (workers s)[i := (workers s ! i)\<lparr>wpc := WExited\<rparr>]\<rparr>)"
    if l: "i < length (workers s)" and r: "wpc (workers s ! i) = WRelease" for i
  proof -
    have "live_workers s \<noteq> 0" using no_live_worker [OF _ l] r by auto
    then have "0 < sema s" using tk(1) by simp
    then show ?thesis using l r np by (simp add: step_def worker_release_def)
  qed
  with h tk show ?thesis by simp
qed

lemma run_append: "run (as @ bs) s = (case run as s of None \<Rightarrow> None | Some s' \<Rightarrow> run bs s')"
  by (induction as arbitrary: s) (auto split: option.splits)

lemmas run_defs = step_def start_def stopper_step_def terminate_step_def timer_fire_def
  exec_dequeue_def loop_wake_def exec_abort_def exec_acquire_def worker_spawn_def
  handler_return_def worker_quit_def worker_result_def worker_release_def op_defs
  close_abort_def close_quit_def init_def proc0_def store0_def
  newProcessor_def queues_def rdb_RestoreUnfinished_def rdb_Kill_def rdb_Done_def
  rdb_Retry_def rdb_Requeue_def perform_def NewTask_def timeout_def Second_def msg0_def Let_def
  no_delay_def

theorem bounded_concurrency_witness:
  "\<exists>s s'. run [Start None, LoopExec [(''default'', 1)] (\<lambda>i. 0) None, LoopAcquire, WorkerSpawn 0]
            (init proc0 store0 0) = Some s
       \<and> handlers_running s = 1 \<and> handlers_running s \<le> sema_cap proc0 \<and> sema s = 1
       \<and> run [HandlerReturn 0, WorkerResult 0 None] s = Some s'
       \<and> wpc (workers s' ! 0) = WRelease \<and> sema s' = 1
       \<and> step (WorkerRelease 0) s'
          = Some (s'\<lparr>sema := 0, workers := (workers s')[0 := (workers s' ! 0)\<lparr>wpc := WExited\<rparr>]\<rparr>)"
proof -
  obtain s where r: "run [Start None, LoopExec [(''default'', 1)] (\<lambda>i. 0) None, LoopAcquire,
      WorkerSpawn 0] (init proc0 store0 0) = Some s"
    and h: "handlers_running s = 1" "sema s = 1"
    by (simp add: run_defs handlers_running_def)
  obtain s' where r': "run ([Start None, LoopExec [(''default'', 1)] (\<lambda>i. 0) None, LoopAcquire,
      WorkerSpawn 0] @ [HandlerReturn 0, WorkerResult 0 None]) (init proc0 store0 0) = Some s'"
    and h': "0 < length (workers s')" "wpc (workers s' ! 0) = WRelease" "sema s' = 1"
    by (simp add: run_defs)
  have r2: "run [HandlerReturn 0, WorkerResult 0 None] s = Some s'"
    using r r' by (simp only: run_append option.case)
  from bounded_concurrency [OF r'] h'
  have rel: "step (WorkerRelease 0) s'
          = Some (s'\<lparr>sema := 0, workers := (workers s')[0 := (workers s' ! 0)\<lparr>wpc := WExited\<rparr>]\<rparr>)"
    by simp
  from bounded_concurrency [OF r] have "handlers_running s \<le> sema_cap proc0" by blast
  with r h r2 h' rel show ?thesis by blast
qed

text \<open>
  Claim C3, amended. In every run, \<open>quit\<close> is scheduled only once \<open>stop\<close> has completed,
  \<open>terminate\<close> puts tokens into \<open>sema\<close> only once \<open>quit\<close> is scheduled, and \<open>quit\<close> is
  closed no sooner than 8 seconds after it was scheduled. When \<open>terminate\<close> has returned,
  \<open>stop\<close> has completed, \<open>terminate\<close> holds all the tokens, no worker is left, and
  the last call the processor has made is \<open>RestoreUnfinished\<close>; if that call succeeded,
  the in-progress area is empty.
\<close>

theorem terminate_postcondition:
  assumes "run as (init p st t) = Some s"
  shows "(timer s \<noteq> TimerNone \<longrightarrow> once s = OnceDone \<and> abort_closed s \<and> loop s = LExited)
       \<and> (0 < term_tokens s \<longrightarrow> timer s \<noteq> TimerNone)
       \<and> (quit_closed s \<longrightarrow> (\<exists>t0. timer s = Fired t0 \<and> t0 + 8 * 1000000000 \<le> now s))
       \<and> (terminator s = TReturned \<longrightarrow>
            once s = OnceDone \<and> abort_closed s \<and> done_sent s = 1 \<and> loop s = LExited
            \<and> timer s \<noteq> TimerNone
            \<and> sema s = sema_cap p \<and> term_tokens s = sema_cap p \<and> live_workers s = 0
            \<and> calls s \<noteq> []
            \<and> (\<exists>err. last (calls s) = StoreCall OpRestoreUnfinished err
                   \<and> (err = None \<longrightarrow> in_progress (rdb s) = [])))"
proof -
  have i: "inv s" using reachable_inv [OF assms] .
  then have sg: "signals_ok s" and tk: "tokens_ok s" and rt: "returned_ok s"
    by (simp_all add: inv_def)
  have p: "proc s = p" using proc_run [OF assms] by (simp add: init_def)
  have sched: "scheduled (terminator s) \<Longrightarrow> past_stop (terminator s)"
    by (cases "terminator s") simp_all
  have a: "timer s \<noteq> TimerNone \<longrightarrow> once s = OnceDone \<and> abort_closed s \<and> loop s = LExited"
    using sg sched unfolding signals_ok_def by blast
  have "0 < term_tokens s \<Longrightarrow> scheduled (terminator s)"
    by (cases "terminator s") (simp_all add: term_tokens_def)
  then have b: "0 < term_tokens s \<longrightarrow> timer s \<noteq> TimerNone"
    using sg unfolding signals_ok_def by blast
  have c: "quit_closed s \<longrightarrow> (\<exists>t0. timer s = Fired t0 \<and> t0 + 8 * 1000000000 \<le> now s)"
  proof
    assume "quit_closed s"
    then have "fired (timer s)" using sg unfolding signals_ok_def by blast
    then obtain t0 where "timer s = Fired t0" by (cases "timer s") simp_all
    moreover from this have "t0 + timeout \<le> now s" using sg unfolding signals_ok_def by blast
    ultimately show "\<exists>t0. timer s = Fired t0 \<and> t0 + 8 * 1000000000 \<le> now s"
      by (simp add: timeout_def Second_def)
  qed
  have d: "once s = OnceDone \<and> abort_closed s \<and> done_sent s = 1 \<and> loop s = LExited
            \<and> timer s \<noteq> TimerNone
            \<and> sema s = sema_cap p \<and> term_tokens s = sema_cap p \<and> live_workers s = 0
            \<and> calls s \<noteq> []
            \<and> (\<exists>err. last (calls s) = StoreCall OpRestoreUnfinished err
                   \<and> (err = None \<longrightarrow> in_progress (rdb s) = []))"
    if r: "terminator s = TReturned"
  proof -
    note q = returned_quiet [OF sg tk r]
    have "timer s \<noteq> TimerNone" "abort_closed s" "done_sent s = 1"
      using sg r q unfolding signals_ok_def by simp_all
    moreover have "term_tokens s = sema_cap p" using r p by (simp add: term_tokens_def)
    moreover from this have "sema s = sema_cap p" using tk q unfolding tokens_ok_def by simp
    ultimately show ?thesis using q rt r unfolding returned_ok_def by simp
  qed
  from a b c d show ?thesis by blast
qed

theorem terminate_postcondition_witness:
  "\<exists>s. run [Start None, LoopExec [(''default'', 1)] (\<lambda>i. 0) None, LoopAcquire, WorkerSpawn 0,
            HandlerReturn 0, CallTerminate, TermStep None, TermStep None, TermStep None,
            WorkerResult 0 None, WorkerRelease 0, TermStep None, Tick 8000000000, TimerFire,
            TermStep None, TermStep None]
          (init proc0 store0 0) = Some s
       \<and> terminator s = TReturned \<and> quit_closed s \<and> timer s = Fired 0 \<and> 8000000000 \<le> now s
       \<and> once s = OnceDone \<and> sema s = sema_cap proc0 \<and> live_workers s = 0
       \<and> last (calls s) = StoreCall OpRestoreUnfinished None \<and> in_progress (rdb s) = []"
proof -
  obtain s where r: "run [Start None, LoopExec [(''default'', 1)] (\<lambda>i. 0) None, LoopAcquire,
            WorkerSpawn 0, HandlerReturn 0, CallTerminate, TermStep None, TermStep None,
            TermStep None, WorkerResult 0 None, WorkerRelease 0, TermStep None, Tick 8000000000,
            TimerFire, TermStep None, TermStep None] (init proc0 store0 0) = Some s"
    and h: "terminator s = TReturned" "last (calls s) = StoreCall OpRestoreUnfinished None"
      "quit_closed s" "timer s = Fired 0"
    by (simp add: run_defs)
  note t = terminate_postcondition [OF r]
  from t h have "once s = OnceDone \<and> sema s = sema_cap proc0 \<and> live_workers s = 0
      \<and> in_progress (rdb s) = []"
    by auto
  moreover from t h have "8000000000 \<le> now s" by auto
  ultimately show ?thesis using r h by blast
qed

text \<open>
  Claim C3 as stated promises an empty in-progress area after \<open>terminate\<close> in every case.
  \<open>restore\<close> only logs an error of \<open>RestoreUnfinished\<close>: here a worker is abandoned at
  the deadline, the last \<open>RestoreUnfinished\<close> fails, \<open>terminate\<close> returns, and the message
  is still in progress.
\<close>

theorem terminate_postcondition_counterexample:
  "map_option terminator (run abandoned_run (init proc0 store0 0)) = Some TReturned
   \<and> map_option in_progress (map_option rdb (run abandoned_run (init proc0 store0 0)))
       = Some [msg0]"
  by (simp add: abandoned_run_def run_defs)

section \<open>Stopping\<close>

lemma more_stops_noop:
  "once s = OnceDone \<Longrightarrow> \<not> panicked s \<Longrightarrow>
   run (more_stops (length (stoppers s)) n) s
   = Some (s\<lparr>stoppers := stoppers s @ replicate n SReturned\<rparr>)"
proof (induction n arbitrary: s)
  case 0
  then show ?case by simp
next
  case (Suc n)
  let ?s2 = "s\<lparr>stoppers := stoppers s @ [SReturned]\<rparr>"
  have two: "run [CallStop, StopStep (length (stoppers s))] s = Some ?s2"
    using Suc.prems by (simp add: step_def stopper_step_def)
  have "run (more_stops (length (stoppers ?s2)) n) ?s2
        = Some (?s2\<lparr>stoppers := stoppers ?s2 @ replicate n SReturned\<rparr>)"
    using Suc.prems by (intro Suc.IH) simp_all
  then have "run (more_stops (Suc (length (stoppers s))) n) ?s2
        = Some (s\<lparr>stoppers := stoppers s @ replicate (Suc n) SReturned\<rparr>)"
    by (simp add: replicate_app_Cons_same)
  then show ?case
    using two run_append [of "[CallStop, StopStep (length (stoppers s))]"
        "more_stops (Suc (length (stoppers s))) n" s]
    by simp
qed

lemma first_stop_effect:
  assumes "loop s = LTop" and "once s = OnceFresh" and "\<not> panicked s" and "\<not> abort_closed s"
  shows "run (first_stop (length (stoppers s))) s
         = Some (s\<lparr>abort_closed := True, once := OnceDone, done_sent := done_sent s + 1,
                   loop := LExited, stoppers := stoppers s @ [SReturned]\<rparr>)"
  using assms by (simp add: first_stop_def step_def stopper_step_def close_abort_def)

text \<open>
  Claim C5. In every run \<open>abort\<close> is never closed twice (nothing panics) and at most one
  value is sent on \<open>done\<close>; once a call of \<open>stop\<close> has returned, \<open>abort\<close> is closed,
  exactly one value has been sent and the loop has returned. On a running processor,
  between two rounds of the loop, \<open>n + 1\<close> calls of \<open>stop\<close> one after the other leave the
  state that one call leaves, with \<open>n + 1\<close> returned callers in place of one; and once
  \<open>stop\<close> has completed, \<open>n\<close> further calls change nothing but the list of returned
  callers.
\<close>

theorem stop_idempotent:
  assumes "run as (init p st t) = Some s"
  shows "\<not> panicked s \<and> done_sent s \<le> 1
       \<and> (SReturned \<in> set (stoppers s) \<longrightarrow>
            abort_closed s \<and> done_sent s = 1 \<and> once s = OnceDone \<and> loop s = LExited)
       \<and> (loop s = LTop \<and> once s = OnceFresh \<longrightarrow>
            run (first_stop (length (stoppers s)) @ more_stops (Suc (length (stoppers s))) n) s
            = Some (s\<lparr>abort_closed := True, once := OnceDone, done_sent := 1, loop := LExited,
                      stoppers := stoppers s @ replicate (Suc n) SReturned\<rparr>))
       \<and> (once s = OnceDone \<longrightarrow>
            run (more_stops (length (stoppers s)) n) s
            = Some (s\<lparr>stoppers := stoppers s @ replicate n SReturned\<rparr>))"
proof -
  have sg: "signals_ok s" using reachable_inv [OF assms] by (simp add: inv_def)
  have np: "\<not> panicked s" using sg unfolding signals_ok_def by blast
  have a: "done_sent s \<le> 1" using sg unfolding signals_ok_def by simp
  have b: "SReturned \<in> set (stoppers s) \<longrightarrow>
            abort_closed s \<and> done_sent s = 1 \<and> once s = OnceDone \<and> loop s = LExited"
    using sg unfolding signals_ok_def by simp
  have c: "run (first_stop (length (stoppers s)) @ more_stops (Suc (length (stoppers s))) n) s
            = Some (s\<lparr>abort_closed := True, once := OnceDone, done_sent := 1, loop := LExited,
                      stoppers := stoppers s @ replicate (Suc n) SReturned\<rparr>)"
    if l: "loop s = LTop" and o: "once s = OnceFresh"
  proof -
    have "\<not> abort_closed s" "done_sent s = 0" using sg o unfolding signals_ok_def by simp_all
    then have f: "run (first_stop (length (stoppers s))) s
         = Some (s\<lparr>abort_closed := True, once := OnceDone, done_sent := 1,
                   loop := LExited, stoppers := stoppers s @ [SReturned]\<rparr>)"
      (is "_ = Some ?s1")
      using first_stop_effect [OF l o np] by simp
    have "run (more_stops (length (stoppers ?s1)) n) ?s1
          = Some (?s1\<lparr>stoppers := stoppers ?s1 @ replicate n SReturned\<rparr>)"
      using np by (intro more_stops_noop) simp_all
    then show ?thesis using f by (simp add: run_append replicate_app_Cons_same)
  qed
  have d: "once s = OnceDone \<longrightarrow> run (more_stops (length (stoppers s)) n) s
            = Some (s\<lparr>stoppers := stoppers s @ replicate n SReturned\<rparr>)"
    using more_stops_noop [OF _ np] by simp
  from np a b c d show ?thesis by blast
qed

theorem stop_idempotent_witness:
  "\<exists>s s'. run [Start None] (init proc0 store0 0) = Some s
     \<and> run (first_stop 0 @ more_stops 1 0) s = Some s'
     \<and> run (first_stop 0 @ more_stops 1 4) s = Some (s'\<lparr>stoppers := replicate 5 SReturned\<rparr>)
     \<and> abort_closed s' \<and> done_sent s' = 1 \<and> loop s' = LExited \<and> stoppers s' = [SReturned]
     \<and> \<not> panicked s'
     \<and> run (more_stops 1 3) s' = Some (s'\<lparr>stoppers := [SReturned] @ replicate 3 SReturned\<rparr>)"
proof -
  obtain s where r: "run [Start None] (init proc0 store0 0) = Some s"
    and h: "loop s = LTop" "once s = OnceFresh" "stoppers s = []"
    by (simp add: run_defs)
  note t = stop_idempotent [OF r]
  let ?s' = "s\<lparr>abort_closed := True, once := OnceDone, done_sent := 1, loop := LExited,
               stoppers := replicate 1 SReturned\<rparr>"
  from t [of 0] h have one: "run (first_stop 0 @ more_stops 1 0) s = Some ?s'"
    by simp
  from t [of 4] h have five: "run (first_stop 0 @ more_stops 1 4) s
      = Some (?s'\<lparr>stoppers := replicate 5 SReturned\<rparr>)"
    by simp
  obtain s1 where s1: "s1 = ?s'" by blast
  have one': "run (first_stop 0 @ more_stops 1 0) s = Some s1"
    using one by (simp only: s1)
  have five': "run (first_stop 0 @ more_stops 1 4) s = Some (s1\<lparr>stoppers := replicate 5 SReturned\<rparr>)"
    using five by (simp only: s1)
  have f1: "stoppers s1 = [SReturned]" "once s1 = OnceDone" "SReturned \<in> set (stoppers s1)"
    "length (stoppers s1) = 1"
    by (simp_all add: s1)
  have "run ([Start None] @ (first_stop 0 @ more_stops 1 0)) (init proc0 store0 0)
        = run (first_stop 0 @ more_stops 1 0) s"
    using run_append [of "[Start None]" "first_stop 0 @ more_stops 1 0" "init proc0 store0 0"] r
    by (simp only: option.case)
  then have r1: "run ([Start None] @ (first_stop 0 @ more_stops 1 0)) (init proc0 store0 0) = Some s1"
    using one' by (simp only:)
  note t' = stop_idempotent [OF r1]
  from t' f1(3) have sig: "abort_closed s1 \<and> done_sent s1 = 1 \<and> loop s1 = LExited \<and> \<not> panicked s1"
    by blast
  from t' [of 3] f1(2) have "run (more_stops (length (stoppers s1)) 3) s1
      = Some (s1\<lparr>stoppers := stoppers s1 @ replicate 3 SReturned\<rparr>)"
    by blast
  then have "run (more_stops 1 3) s1 = Some (s1\<lparr>stoppers := stoppers s1 @ replicate 3 SReturned\<rparr>)"
    by (simp only: f1(4))
  then have more: "run (more_stops 1 3) s1 = Some (s1\<lparr>stoppers := [SReturned] @ replicate 3 SReturned\<rparr>)"
    by (simp only: f1(1))
  from r one' five' sig more f1(1) show ?thesis by blast
qed

lemma unstarted_init: "unstarted st (init p st t)"
  by (simp add: unstarted_def init_def)

lemma stop_step_unstarted:
  assumes "unstarted st s" and "stop_step pc s = Some (pc', s')"
  shows "pc' \<noteq> SReturned" and "loop s' = NotStarted" and "once s' \<noteq> OnceDone"
    and "\<not> panicked s'" and "abort_closed s' \<longleftrightarrow> once s' = OnceRunning FSend"
  using assms unfolding unstarted_def
  by (cases pc; cases "once s"; auto simp: close_abort_def split: f_pc.splits if_splits)+

lemma unstarted_step:
  assumes u: "unstarted st s" and st: "step a s = Some s'" and ns: "\<forall>err. a \<noteq> Start err"
  shows "unstarted st s'"
proof -
  have as: "action_step a s = Some s'"
    using st by (auto simp: step_def split: if_splits)
  show ?thesis
  proof (cases a)
    case (Start err)
    then show ?thesis using ns by simp
  next
    case (StopStep i)
    then obtain pc' s1 where s1: "stop_step (stoppers s ! i) s = Some (pc', s1)"
      and s': "s' = s1\<lparr>stoppers := (stoppers s1)[i := pc']\<rparr>"
      using as by (auto simp: stopper_step_def split: if_splits option.splits)
    note fr = stop_step_frame [OF s1]
    note su = stop_step_unstarted [OF u s1]
    have "SReturned \<notin> set ((stoppers s)[i := pc'])"
      using set_update_other [of SReturned "stoppers s" i pc'] su(1) u
      unfolding unstarted_def by blast
    then show ?thesis using u su unfolding s' unstarted_def by (simp add: fr)
  next
    case (TermStep err)
    show ?thesis
    proof (cases "terminator s")
      case (TStop pc)
      with as TermStep obtain pc' s1 where s1: "stop_step pc s = Some (pc', s1)"
        and s': "s' = s1\<lparr>terminator := (if pc' = SReturned then TAfterFunc else TStop pc')\<rparr>"
        by (auto simp: terminate_step_def split: option.splits)
      note fr = stop_step_frame [OF s1]
      note su = stop_step_unstarted [OF u s1]
      show ?thesis using u su unfolding s' unstarted_def by (simp add: fr)
    qed (use as TermStep u in \<open>auto simp: terminate_step_def unstarted_def\<close>)
  qed (use as u in \<open>auto simp: unstarted_def timer_fire_def exec_dequeue_def loop_wake_def
        exec_abort_def exec_acquire_def worker_spawn_def handler_return_def worker_quit_def
        worker_result_def worker_release_def split: if_splits\<close>)
qed

lemma unstarted_run:
  "unstarted st s \<Longrightarrow> run as s = Some s' \<Longrightarrow> \<forall>err. Start err \<notin> set as \<Longrightarrow> unstarted st s'"
proof (induction as arbitrary: s)
  case Nil
  then show ?case by simp
next
  case (Cons a as)
  from Cons.prems(2) obtain s1 where s1: "step a s = Some s1" and r: "run as s1 = Some s'"
    by (auto split: option.splits)
  have "unstarted st s1" using unstarted_step [OF Cons.prems(1) s1] Cons.prems(3) by auto
  then show ?case using Cons.IH [OF _ r] Cons.prems(3) by auto
qed

text \<open>
  Claim C8, amended. On a processor on which \<open>start\<close> has not been called, \<open>stop\<close> and
  \<open>terminate\<close> may be called and do nothing to any task: no call to the store, no
  handler, the store as it was, nothing panics. But the call does not return as long as
  \<open>start\<close> is not called: after closing \<open>abort\<close> it waits on the send to \<open>done\<close>,
  which nobody receives, and \<open>terminate\<close> waits inside its \<open>stop\<close>.
\<close>

theorem stop_before_start_blocks:
  assumes "run as (init p st t) = Some s" and "\<forall>err. Start err \<notin> set as"
  shows "SReturned \<notin> set (stoppers s)
       \<and> (terminator s = TIdle \<or> terminator s = TStop SCall \<or> terminator s = TStop SInDo)
       \<and> calls s = [] \<and> rdb s = st \<and> workers s = [] \<and> loop s = NotStarted
       \<and> \<not> quit_closed s \<and> \<not> panicked s"
proof -
  have u: "unstarted st s" using unstarted_run [OF unstarted_init assms] .
  have "terminator s = TIdle \<or> terminator s = TStop SCall \<or> terminator s = TStop SInDo"
  proof (cases "terminator s")
    case (TStop pc)
    then show ?thesis using u by (cases pc) (simp_all add: unstarted_def)
  qed (use u in \<open>simp_all add: unstarted_def\<close>)
  then show ?thesis using u unfolding unstarted_def by simp
qed

theorem stop_before_start_blocks_witness:
  "\<exists>s. run [CallStop, StopStep 0, StopStep 0] (init proc0 store0 0) = Some s
       \<and> stoppers s = [SInDo] \<and> abort_closed s \<and> step (StopStep 0) s = None
       \<and> calls s = [] \<and> rdb s = store0 \<and> SReturned \<notin> set (stoppers s)"
proof -
  obtain s where r: "run [CallStop, StopStep 0, StopStep 0] (init proc0 store0 0) = Some s"
    and h: "stoppers s = [SInDo]" "abort_closed s" "step (StopStep 0) s = None"
    by (simp add: run_defs)
  have ns: "\<forall>err. Start err \<notin> set [CallStop, StopStep 0, StopStep 0]" by simp
  from stop_before_start_blocks [OF r ns]
  have "calls s = [] \<and> rdb s = store0 \<and> SReturned \<notin> set (stoppers s)" by blast
  with r h show ?thesis by blast
qed

text \<open>
  Claim C8 as stated says the call returns. Without a call of \<open>start\<close> no run reaches a
  state in which a call of \<open>stop\<close> or the call of \<open>terminate\<close> has returned.
\<close>

theorem stop_before_start_counterexample:
  "\<not> (\<exists>as s. (\<forall>err. Start err \<notin> set as) \<and> run as (init proc0 store0 0) = Some s
        \<and> (SReturned \<in> set (stoppers s) \<or> terminator s = TReturned))"
proof
  assume "\<exists>as s. (\<forall>err. Start err \<notin> set as) \<and> run as (init proc0 store0 0) = Some s
        \<and> (SReturned \<in> set (stoppers s) \<or> terminator s = TReturned)"
  then obtain as s where ns: "\<forall>err. Start err \<notin> set as"
    and r: "run as (init proc0 store0 0) = Some s"
    and ret: "SReturned \<in> set (stoppers s) \<or> terminator s = TReturned"
    by blast
  have "unstarted store0 s" using unstarted_run [OF unstarted_init r ns] .
  then show False using ret unfolding unstarted_def by auto
qed

section \<open>Requeuing on abort\<close>

text \<open>What each step adds to the record of calls.\<close>

lemma calls_step:
  assumes st: "step a s0 = Some s1"
  shows "calls s1 = calls s0
       \<or> (\<exists>ev. calls s1 = calls s0 @ [ev]
             \<and> (\<forall>m e. ev = StoreCall (OpRequeue m) e \<longrightarrow>
                   a = LoopAbort e \<and> loop s0 = LHolding m \<and> abort_closed s0
                   \<and> workers s1 = workers s0))"
proof -
  have as: "action_step a s0 = Some s1"
    using st by (auto simp: step_def split: if_splits)
  show ?thesis
  proof (cases a)
    case (Tick d)
    then show ?thesis using as by auto
  next
    case (Start err)
    then show ?thesis using as by (auto simp: start_def op_defs split: if_splits)
  next
    case CallStop
    then show ?thesis using as by auto
  next
    case CallTerminate
    then show ?thesis using as by (auto split: if_splits)
  next
    case (StopStep i)
    then obtain pc' s' where s': "stop_step (stoppers s0 ! i) s0 = Some (pc', s')"
      and s1: "s1 = s'\<lparr>stoppers := (stoppers s')[i := pc']\<rparr>"
      using as by (auto simp: stopper_step_def split: if_splits option.splits)
    show ?thesis by (simp add: s1 stop_step_frame [OF s'])
  next
    case (TermStep err)
    show ?thesis
    proof (cases "terminator s0")
      case (TStop pc)
      with as TermStep obtain pc' s' where s': "stop_step pc s0 = Some (pc', s')"
        and s1: "s1 = s'\<lparr>terminator := (if pc' = SReturned then TAfterFunc else TStop pc')\<rparr>"
        by (auto simp: terminate_step_def split: option.splits)
      show ?thesis by (simp add: s1 stop_step_frame [OF s'])
    qed (use as TermStep in \<open>auto simp: terminate_step_def op_defs split: if_splits\<close>)
  next
    case TimerFire
    then show ?thesis using as
      by (auto simp: timer_fire_def close_quit_def split: timer_state.splits if_splits)
  next
    case (LoopExec ord rnd err)
    then have "calls s1 = calls s0 @ [StoreCall (OpDequeue (queues (proc s0) ord rnd)) err]"
      using as by (auto simp: exec_dequeue_def op_defs Let_def split: if_splits option.splits)
    then show ?thesis by simp
  next
    case LoopWake
    then show ?thesis using as by (auto simp: loop_wake_def split: loop_pc.splits if_splits)
  next
    case (LoopAbort err)
    then show ?thesis using as
      by (auto simp: exec_abort_def op_defs split: if_splits loop_pc.splits)
  next
    case LoopAcquire
    then show ?thesis using as by (auto simp: exec_acquire_def split: loop_pc.splits if_splits)
  next
    case (WorkerSpawn i)
    then show ?thesis using as by (auto simp: worker_spawn_def split: if_splits)
  next
    case (HandlerReturn i)
    then show ?thesis using as by (auto simp: handler_return_def Let_def split: if_splits)
  next
    case (WorkerQuit i)
    then show ?thesis using as by (auto simp: worker_quit_def split: if_splits)
  next
    case (WorkerResult i err)
    then obtain r where "calls s1 = calls (finish (wmsg (workers s0 ! i)) r err s0)"
      using as by (auto simp: worker_result_def Let_def split: if_splits handler_pc.splits)
    then have "\<exists>opn. calls s1 = calls s0 @ [StoreCall opn err] \<and> (\<forall>m. opn \<noteq> OpRequeue m)"
      by (cases r) (simp_all add: op_defs Let_def)
    then show ?thesis by auto
  next
    case (WorkerRelease i)
    then show ?thesis using as by (auto simp: worker_release_def split: if_splits)
  qed
qed

text \<open>
  Claim C6. When the loop stands at the \<open>select\<close> of \<open>exec\<close> with a dequeued message
  and \<open>abort\<close> is closed, the abort branch passes the message to \<open>Requeue\<close>, which on
  success takes it from the in-progress area back to the head of its queue, and returns
  to the loop; no worker is added. While no slot is free the other branch cannot be
  taken, so no handler is invoked for the message. And in no step of any goroutine is
  \<open>Requeue\<close> called but in this one: a step that records a call of \<open>Requeue\<close> is the
  abort branch, taken with \<open>abort\<close> closed for the message the loop holds, it records
  nothing else and leaves the workers as they were.
\<close>

theorem abort_requeues:
  assumes "loop s = LHolding msg" and "abort_closed s" and "\<not> panicked s"
  shows "step (LoopAbort err) s
         = Some (s\<lparr>rdb := (if err = None then rdb_Requeue msg (rdb s) else rdb s),
                   calls := calls s @ [StoreCall (OpRequeue msg) err],
                   loop := LTop\<rparr>)
       \<and> in_progress (rdb_Requeue msg (rdb s)) = remove1 msg (in_progress (rdb s))
       \<and> active (rdb_Requeue msg (rdb s)) (Queue msg) = msg # active (rdb s) (Queue msg)
       \<and> (sema_cap (proc s) \<le> sema s \<longrightarrow> step LoopAcquire s = None)
       \<and> (\<forall>a s0 s1 m e. step a s0 = Some s1
             \<and> StoreCall (OpRequeue m) e \<in> set (drop (length (calls s0)) (calls s1))
             \<longrightarrow> a = LoopAbort e \<and> loop s0 = LHolding m \<and> abort_closed s0
                 \<and> workers s1 = workers s0
                 \<and> drop (length (calls s0)) (calls s1) = [StoreCall (OpRequeue m) e])"
proof -
  have "step (LoopAbort err) s
         = Some (s\<lparr>rdb := (if err = None then rdb_Requeue msg (rdb s) else rdb s),
                   calls := calls s @ [StoreCall (OpRequeue msg) err],
                   loop := LTop\<rparr>)"
    using assms by (simp add: step_def exec_abort_def op_defs)
  moreover have "sema_cap (proc s) \<le> sema s \<longrightarrow> step LoopAcquire s = None"
    using assms by (simp add: step_def exec_acquire_def)
  moreover have "in_progress (rdb_Requeue msg (rdb s)) = remove1 msg (in_progress (rdb s))"
    "active (rdb_Requeue msg (rdb s)) (Queue msg) = msg # active (rdb s) (Queue msg)"
    by (simp_all add: rdb_Requeue_def)
  moreover have "a = LoopAbort e \<and> loop s0 = LHolding m \<and> abort_closed s0
                 \<and> workers s1 = workers s0
                 \<and> drop (length (calls s0)) (calls s1) = [StoreCall (OpRequeue m) e]"
    if "step a s0 = Some s1"
      and "StoreCall (OpRequeue m) e \<in> set (drop (length (calls s0)) (calls s1))"
    for a s0 s1 m e
    using calls_step [OF that(1)] that(2) by auto
  ultimately show ?thesis by blast
qed


theorem abort_requeues_witness:
  "\<exists>s s'. run [Start None, LoopExec [(''default'', 1)] (\<lambda>i. 0) None, LoopAcquire, WorkerSpawn 0,
              LoopExec [(''default'', 1)] (\<lambda>i. 0) None, CallStop, StopStep 0, StopStep 0]
            (init (proc0\<lparr>handler := \<lambda>t. Returns None\<rparr>)
               (store0\<lparr>active := \<lambda>q. if q = ''default'' then [msg0, msg0\<lparr>ID := ''2''\<rparr>] else []\<rparr>) 0)
          = Some s
     \<and> loop s = LHolding (msg0\<lparr>ID := ''2''\<rparr>) \<and> abort_closed s \<and> sema s = sema_cap (proc s)
     \<and> step LoopAcquire s = None
     \<and> step (LoopAbort None) s = Some s'
     \<and> calls s' = calls s @ [StoreCall (OpRequeue (msg0\<lparr>ID := ''2''\<rparr>)) None]
     \<and> in_progress (rdb s') = [msg0] \<and> active (rdb s') ''default'' = [msg0\<lparr>ID := ''2''\<rparr>]
     \<and> workers s' = workers s
     \<and> drop (length (calls s)) (calls s') = [StoreCall (OpRequeue (msg0\<lparr>ID := ''2''\<rparr>)) None]"
proof -
  let ?m = "msg0\<lparr>ID := ''2''\<rparr>"
  obtain s where r: "run [Start None, LoopExec [(''default'', 1)] (\<lambda>i. 0) None, LoopAcquire,
              WorkerSpawn 0, LoopExec [(''default'', 1)] (\<lambda>i. 0) None, CallStop, StopStep 0,
              StopStep 0]
            (init (proc0\<lparr>handler := \<lambda>t. Returns None\<rparr>)
               (store0\<lparr>active := \<lambda>q. if q = ''default'' then [msg0, ?m] else []\<rparr>) 0)
          = Some s"
    and h: "loop s = LHolding ?m" "abort_closed s" "\<not> panicked s" "sema s = sema_cap (proc s)"
      "in_progress (rdb s) = [msg0, ?m]" "active (rdb s) ''default'' = []"
    by (simp add: run_defs)
  note t = abort_requeues [OF h(1,2,3), of None]
  let ?s' = "s\<lparr>rdb := rdb_Requeue ?m (rdb s),
                calls := calls s @ [StoreCall (OpRequeue ?m) None], loop := LTop\<rparr>"
  from t have a: "step (LoopAbort None) s = Some ?s'" by simp
  from t h(4) have b: "step LoopAcquire s = None" by simp
  have c: "in_progress (rdb ?s') = [msg0]" "active (rdb ?s') ''default'' = [?m]"
    using h(5,6) by (simp_all add: rdb_Requeue_def msg0_def)
  have d: "calls ?s' = calls s @ [StoreCall (OpRequeue ?m) None]" "workers ?s' = workers s"
    by simp_all
  then have "StoreCall (OpRequeue ?m) None \<in> set (drop (length (calls s)) (calls ?s'))"
    by simp
  with t a have "drop (length (calls s)) (calls ?s') = [StoreCall (OpRequeue ?m) None]"
    by blast
  with r h a b c d show ?thesis by blast
qed

section \<open>The outcome of a task\<close>

text \<open>The record of calls only grows, and \<open>quit\<close> stays closed.\<close>

lemma calls_mono: "step a s = Some s' \<Longrightarrow> set (calls s) \<subseteq> set (calls s')"
  using calls_step [of a s s'] by auto

lemma quit_step:
  assumes st: "step a s = Some s'" and q: "quit_closed s"
  shows "quit_closed s'"
proof -
  have as: "action_step a s = Some s'"
    using st by (auto simp: step_def split: if_splits)
  show ?thesis
  proof (cases a)
    case (StopStep i)
    then obtain pc' s1 where s1: "stop_step (stoppers s ! i) s = Some (pc', s1)"
      and s': "s' = s1\<lparr>stoppers := (stoppers s1)[i := pc']\<rparr>"
      using as by (auto simp: stopper_step_def split: if_splits option.splits)
    show ?thesis using q by (simp add: s' stop_step_frame [OF s1])
  next
    case (TermStep err)
    show ?thesis
    proof (cases "terminator s")
      case (TStop pc)
      with as TermStep obtain pc' s1 where s1: "stop_step pc s = Some (pc', s1)"
        and s': "s' = s1\<lparr>terminator := (if pc' = SReturned then TAfterFunc else TStop pc')\<rparr>"
        by (auto simp: terminate_step_def split: option.splits)
      show ?thesis using q by (simp add: s' stop_step_frame [OF s1])
    qed (use as TermStep q in \<open>auto simp: terminate_step_def op_defs split: if_splits\<close>)
  next
    case (WorkerResult i err)
    then obtain r where "quit_closed s' = quit_closed (finish (wmsg (workers s ! i)) r err s)"
      using as by (auto simp: worker_result_def Let_def split: if_splits handler_pc.splits)
    then show ?thesis using q by (cases r) (simp_all add: op_defs Let_def)
  next
    case (LoopExec ord rnd err)
    then show ?thesis using as q
      by (auto simp: exec_dequeue_def op_defs Let_def split: if_splits option.splits)
  next
    case TimerFire
    then show ?thesis using as q
      by (auto simp: timer_fire_def close_quit_def split: timer_state.splits if_splits)
  qed (use as q in \<open>auto simp: start_def loop_wake_def exec_abort_def exec_acquire_def
      worker_spawn_def handler_return_def worker_quit_def worker_release_def op_defs Let_def
      split: if_splits loop_pc.splits\<close>)
qed

lemma settles_cong: "wmsg w' = wmsg w \<Longrightarrow> hpc w' = hpc w \<Longrightarrow> settles w' ev = settles w ev"
  by (cases "(w, ev)" rule: settles.cases) simp_all

text \<open>What a step does to the list of workers.\<close>

lemma workers_step:
  assumes st: "step a s = Some s'"
  shows "workers s' = workers s
       \<or> (\<exists>m. workers s' = workers s @ [\<lparr>wmsg = m, wpc = WStart, hpc = HNone\<rparr>])
       \<or> (\<exists>i w'. i < length (workers s) \<and> workers s' = (workers s)[i := w']
             \<and> wmsg w' = wmsg (workers s ! i)
             \<and> (wpc w' = WSelect
                 \<or> hpc (workers s ! i) = HRunning \<and> wpc w' = wpc (workers s ! i)
                 \<or> quit_closed s
                 \<or> (\<exists>ev. calls s' = calls s @ [ev] \<and> settles w' ev)
                 \<or> wpc (workers s ! i) = WRelease \<and> hpc w' = hpc (workers s ! i)))"
proof -
  have as: "action_step a s = Some s'"
    using st by (auto simp: step_def split: if_splits)
  show ?thesis
  proof (cases a)
    case (StopStep i)
    then obtain pc' s1 where s1: "stop_step (stoppers s ! i) s = Some (pc', s1)"
      and s': "s' = s1\<lparr>stoppers := (stoppers s1)[i := pc']\<rparr>"
      using as by (auto simp: stopper_step_def split: if_splits option.splits)
    show ?thesis by (simp add: s' stop_step_frame [OF s1])
  next
    case (TermStep err)
    show ?thesis
    proof (cases "terminator s")
      case (TStop pc)
      with as TermStep obtain pc' s1 where s1: "stop_step pc s = Some (pc', s1)"
        and s': "s' = s1\<lparr>terminator := (if pc' = SReturned then TAfterFunc else TStop pc')\<rparr>"
        by (auto simp: terminate_step_def split: option.splits)
      show ?thesis by (simp add: s' stop_step_frame [OF s1])
    qed (use as TermStep in \<open>auto simp: terminate_step_def op_defs split: if_splits\<close>)
  next
    case (LoopExec ord rnd err)
    then have "workers s' = workers s" using as
      by (auto simp: exec_dequeue_def op_defs Let_def split: if_splits option.splits)
    then show ?thesis by simp
  next
    case TimerFire
    then have "workers s' = workers s" using as
      by (auto simp: timer_fire_def close_quit_def split: timer_state.splits if_splits)
    then show ?thesis by simp
  next
    case LoopAcquire
    then have "\<exists>m. workers s' = workers s @ [\<lparr>wmsg = m, wpc = WStart, hpc = HNone\<rparr>]" using as
      by (auto simp: exec_acquire_def split: loop_pc.splits if_splits)
    then show ?thesis by blast
  next
    case (WorkerSpawn i)
    let ?w = "(workers s ! i)\<lparr>wpc := WSelect, hpc := HRunning\<rparr>"
    from WorkerSpawn as have "i < length (workers s)" "workers s' = (workers s)[i := ?w]"
      by (auto simp: worker_spawn_def split: if_splits)
    moreover have "wmsg ?w = wmsg (workers s ! i)" "wpc ?w = WSelect" by simp_all
    ultimately show ?thesis by blast
  next
    case (HandlerReturn i)
    then obtain r where "i < length (workers s)" "hpc (workers s ! i) = HRunning"
      "workers s' = (workers s)[i := (workers s ! i)\<lparr>hpc := HSent r\<rparr>]"
      using as by (auto simp: handler_return_def Let_def split: if_splits)
    moreover have "wmsg ((workers s ! i)\<lparr>hpc := HSent r\<rparr>) = wmsg (workers s ! i)"
      "wpc ((workers s ! i)\<lparr>hpc := HSent r\<rparr>) = wpc (workers s ! i)" by simp_all
    ultimately show ?thesis by blast
  next
    case (WorkerQuit i)
    let ?w = "(workers s ! i)\<lparr>wpc := WRelease\<rparr>"
    from WorkerQuit as have "i < length (workers s)" "workers s' = (workers s)[i := ?w]"
      "quit_closed s"
      by (auto simp: worker_quit_def split: if_splits)
    moreover have "wmsg ?w = wmsg (workers s ! i)" by simp
    ultimately show ?thesis by blast
  next
    case (WorkerResult i err)
    let ?w = "(workers s ! i)\<lparr>wpc := WRelease\<rparr>"
    let ?m = "wmsg (workers s ! i)"
    from WorkerResult as obtain r where i: "i < length (workers s)"
      and h: "hpc (workers s ! i) = HSent r"
      and w: "workers s' = (workers (finish ?m r err s))[i := (workers (finish ?m r err s) ! i)\<lparr>wpc := WRelease\<rparr>]"
      and c: "calls s' = calls (finish ?m r err s)"
      by (auto simp: worker_result_def Let_def split: if_splits handler_pc.splits)
    have fw: "workers (finish ?m r err s) = workers s"
      by (cases r) (simp_all add: op_defs Let_def)
    have "\<exists>ev. calls (finish ?m r err s) = calls s @ [ev] \<and> settles ?w ev"
      using h by (cases r) (simp_all add: op_defs Let_def not_le)
    then obtain ev where "calls s' = calls s @ [ev]" "settles ?w ev" using c by auto
    moreover have "workers s' = (workers s)[i := ?w]" using w fw by simp
    moreover have "wmsg ?w = ?m" by simp
    ultimately show ?thesis using i by blast
  next
    case (WorkerRelease i)
    let ?w = "(workers s ! i)\<lparr>wpc := WExited\<rparr>"
    from WorkerRelease as have "i < length (workers s)" "workers s' = (workers s)[i := ?w]"
      "wpc (workers s ! i) = WRelease"
      by (auto simp: worker_release_def split: if_splits)
    moreover have "wmsg ?w = wmsg (workers s ! i)" "hpc ?w = hpc (workers s ! i)" by simp_all
    ultimately show ?thesis by blast
  next
    case (Tick d)
    then have "workers s' = workers s" using as by (auto split: if_splits)
    then show ?thesis by simp
  next
    case (Start err)
    then have "workers s' = workers s" using as
      by (auto simp: start_def op_defs split: if_splits)
    then show ?thesis by simp
  next
    case CallStop
    then have "workers s' = workers s" using as by (auto split: if_splits)
    then show ?thesis by simp
  next
    case CallTerminate
    then have "workers s' = workers s" using as by (auto split: if_splits)
    then show ?thesis by simp
  next
    case LoopWake
    then have "workers s' = workers s" using as
      by (auto simp: loop_wake_def split: if_splits loop_pc.splits)
    then show ?thesis by simp
  next
    case (LoopAbort err)
    then have "workers s' = workers s" using as
      by (auto simp: exec_abort_def op_defs split: if_splits loop_pc.splits)
    then show ?thesis by simp
  qed
qed

lemma settles_sent: "settles w ev \<Longrightarrow> \<exists>r. hpc w = HSent r"
  by (cases "(w, ev)" rule: settles.cases) simp_all

lemma results_settled_step:
  assumes rs: "results_settled s" and st: "step a s = Some s'"
  shows "results_settled s'"
proof (cases "quit_closed s")
  case True
  then show ?thesis using quit_step [OF st] by (simp add: results_settled_def)
next
  case False
  then have old: "\<And>w. w \<in> set (workers s) \<Longrightarrow> left_select w \<Longrightarrow> \<exists>ev \<in> set (calls s). settles w ev"
    using rs by (auto simp: results_settled_def list_all_iff list_ex_iff)
  have mono: "set (calls s) \<subseteq> set (calls s')" by (rule calls_mono [OF st])
  have "\<exists>ev \<in> set (calls s'). settles w ev" if w: "w \<in> set (workers s')" and l: "left_select w" for w
  proof -
    from workers_step [OF st] consider
      (same) "workers s' = workers s"
      | (new) m where "workers s' = workers s @ [\<lparr>wmsg = m, wpc = WStart, hpc = HNone\<rparr>]"
      | (upd) i w' where "i < length (workers s)" "workers s' = (workers s)[i := w']"
          "wmsg w' = wmsg (workers s ! i)"
          "wpc w' = WSelect
             \<or> hpc (workers s ! i) = HRunning \<and> wpc w' = wpc (workers s ! i)
             \<or> quit_closed s
             \<or> (\<exists>ev. calls s' = calls s @ [ev] \<and> settles w' ev)
             \<or> wpc (workers s ! i) = WRelease \<and> hpc w' = hpc (workers s ! i)"
      by blast
    then show ?thesis
    proof cases
      case same
      then show ?thesis using old [of w] w l mono by auto
    next
      case new
      then have "w \<in> set (workers s)" using w l by (auto simp: left_select_def)
      then show ?thesis using old [of w] l mono by auto
    next
      case upd
      show ?thesis
      proof (cases "w = w'")
        case False
        then have "w \<in> set (workers s)" using w upd(2) by (auto dest: set_update_subset_insert [THEN subsetD])
        then show ?thesis using old [of w] l mono by auto
      next
        case True
        let ?o = "workers s ! i"
        have o: "?o \<in> set (workers s)" using upd(1) by simp
        from upd(4) consider "wpc w' = WSelect"
          | "hpc ?o = HRunning" "wpc w' = wpc ?o"
          | "quit_closed s"
          | ev where "calls s' = calls s @ [ev]" "settles w' ev"
          | "wpc ?o = WRelease" "hpc w' = hpc ?o"
          by blast
        then show ?thesis
        proof cases
          case 1
          then show ?thesis using l True by (simp add: left_select_def)
        next
          case 2
          then have "left_select ?o" using l True by (simp add: left_select_def)
          from old [OF o this] obtain ev where "settles ?o ev" by blast
          from settles_sent [OF this] 2(1) show ?thesis by simp
        next
          case 3
          then show ?thesis using False by simp
        next
          case 4
          then show ?thesis using True by auto
        next
          case 5
          then have "left_select ?o" by (simp add: left_select_def)
          from old [OF o this] obtain ev where ev: "ev \<in> set (calls s)" "settles ?o ev" by blast
          have "settles w' ev" using settles_cong [of w' ?o ev] upd(3) 5(2) ev(2) by simp
          then show ?thesis using ev(1) mono True by auto
        qed
      qed
    qed
  qed
  then show ?thesis by (auto simp: results_settled_def list_all_iff list_ex_iff)
qed

lemma results_settled_run: "results_settled s \<Longrightarrow> run as s = Some s' \<Longrightarrow> results_settled s'"
proof (induction as arbitrary: s)
  case Nil
  then show ?case by simp
next
  case (Cons a as)
  then show ?case by (auto split: option.splits dest: results_settled_step)
qed

lemma reachable_results_settled: "run as (init p st t) = Some s \<Longrightarrow> results_settled s"
  by (rule results_settled_run [of "init p st t"]) (simp_all add: results_settled_def init_def)

lemma settled_call:
  assumes "list_ex (settles w) cs" and "hpc w = HSent (Some e)"
  shows "if Retry (wmsg w) \<le> Retried (wmsg w)
         then \<exists>err. StoreCall (OpKill (wmsg w) e) err \<in> set cs
         else \<exists>retryAt err. StoreCall (OpRetry (wmsg w) retryAt e) err \<in> set cs"
proof -
  from assms(1) obtain ev where ev: "ev \<in> set cs" "settles w ev" by (auto simp: list_ex_iff)
  from ev(2) assms(2) have
    "(Retry (wmsg w) \<le> Retried (wmsg w) \<and> (\<exists>err. ev = StoreCall (OpKill (wmsg w) e) err))
     \<or> (Retried (wmsg w) < Retry (wmsg w) \<and> (\<exists>retryAt err. ev = StoreCall (OpRetry (wmsg w) retryAt e) err))"
    by (cases "(w, ev)" rule: settles.cases) auto
  then show ?thesis using ev(1) by auto
qed

lemma worker_quit_step:
  "step (WorkerQuit i) s = Some s' \<Longrightarrow> quit_closed s \<and> calls s' = calls s \<and> rdb s' = rdb s"
  by (auto simp: step_def worker_quit_def split: if_splits)

text \<open>The branch \<open>case resErr := <-resCh\<close> on a failure (lines 165-170).\<close>

lemma worker_result_step:
  assumes "i < length (workers s)" and "wpc (workers s ! i) = WSelect"
    and "hpc (workers s ! i) = HSent (Some e)" and "\<not> panicked s"
  shows "let msg = wmsg (workers s ! i);
             retryAt = now s + retryDelayFunc (proc s) (Retried msg) e (NewTask (Type msg) (Payload msg))
         in \<exists>s'. step (WorkerResult i err) s = Some s'
              \<and> calls s' = calls s @ [StoreCall (if Retried msg \<ge> Retry msg then OpKill msg e
                                                   else OpRetry msg retryAt e) err]
              \<and> (err = None \<longrightarrow>
                   rdb s' = (if Retried msg \<ge> Retry msg then rdb_Kill msg e (rdb s)
                             else rdb_Retry msg retryAt e (rdb s)))
              \<and> (err = None \<and> Retried msg \<ge> Retry msg \<longrightarrow>
                   in_progress (rdb s') = remove1 msg (in_progress (rdb s))
                   \<and> dead_bucket (rdb s') = dead_bucket (rdb s) @ [(msg, e)])
              \<and> (err = None \<and> Retried msg < Retry msg \<longrightarrow>
                   in_progress (rdb s') = remove1 msg (in_progress (rdb s))
                   \<and> retry_bucket (rdb s') = retry_bucket (rdb s) @ [(msg\<lparr>Retried := Retried msg + 1\<rparr>, retryAt, e)])
              \<and> (Retry msg = 0 \<and> Retried msg = 0 \<longrightarrow>
                   calls s' = calls s @ [StoreCall (OpKill msg e) err])"
  using assms
  by (simp add: step_def worker_result_def op_defs Let_def rdb_Kill_def rdb_Retry_def)

text \<open>
  Claim C1, with the exit through \<open>quit\<close>. In every state the processor reaches, a worker at
  its \<open>select\<close> whose handler invocation has returned the failure \<open>e\<close> can take the result,
  and then makes exactly one call to the store: \<open>Kill\<close> with the text of \<open>e\<close> when
  \<open>Retried >= Retry\<close>, and \<open>Retry\<close> otherwise; when the call succeeds the message leaves the
  in-progress area for the dead bucket, with the text, or for the retry bucket. A message
  with \<open>Retry = 0\<close> that has not been retried is therefore killed at its first failure.
  As long as \<open>quit\<close> is not closed the worker cannot leave its \<open>select\<close> any other way,
  and every worker that has left its \<open>select\<close> after a failure has made that call. A
  worker that leaves through \<open>quit\<close> calls nothing.
\<close>

theorem retry_or_kill:
  assumes r: "run as (init p st t) = Some s"
  shows "(\<forall>i e err. i < length (workers s) \<and> wpc (workers s ! i) = WSelect
                 \<and> hpc (workers s ! i) = HSent (Some e) \<longrightarrow>
            (let msg = wmsg (workers s ! i);
                 retryAt = now s + retryDelayFunc (proc s) (Retried msg) e (NewTask (Type msg) (Payload msg))
             in (\<not> quit_closed s \<longrightarrow> step (WorkerQuit i) s = None)
                \<and> (\<forall>s'. step (WorkerQuit i) s = Some s' \<longrightarrow> calls s' = calls s \<and> rdb s' = rdb s)
                \<and> (\<exists>s'. step (WorkerResult i err) s = Some s'
                     \<and> calls s' = calls s @ [StoreCall (if Retried msg \<ge> Retry msg then OpKill msg e
                                                          else OpRetry msg retryAt e) err]
                     \<and> (err = None \<longrightarrow>
                          rdb s' = (if Retried msg \<ge> Retry msg then rdb_Kill msg e (rdb s)
                                    else rdb_Retry msg retryAt e (rdb s)))
                     \<and> (err = None \<and> Retried msg \<ge> Retry msg \<longrightarrow>
                          in_progress (rdb s') = remove1 msg (in_progress (rdb s))
                          \<and> dead_bucket (rdb s') = dead_bucket (rdb s) @ [(msg, e)])
                     \<and> (err = None \<and> Retried msg < Retry msg \<longrightarrow>
                          in_progress (rdb s') = remove1 msg (in_progress (rdb s))
                          \<and> retry_bucket (rdb s') = retry_bucket (rdb s) @ [(msg\<lparr>Retried := Retried msg + 1\<rparr>, retryAt, e)])
                     \<and> (Retry msg = 0 \<and> Retried msg = 0 \<longrightarrow>
                          calls s' = calls s @ [StoreCall (OpKill msg e) err]))))
       \<and> (\<not> quit_closed s \<longrightarrow>
            (\<forall>w \<in> set (workers s). \<forall>e. left_select w \<and> hpc w = HSent (Some e) \<longrightarrow>
               (if Retry (wmsg w) \<le> Retried (wmsg w)
                then \<exists>err. StoreCall (OpKill (wmsg w) e) err \<in> set (calls s)
                else \<exists>retryAt err. StoreCall (OpRetry (wmsg w) retryAt e) err \<in> set (calls s))))"
proof (intro conjI allI impI ballI)
  fix i e err
  assume h: "i < length (workers s) \<and> wpc (workers s ! i) = WSelect
                 \<and> hpc (workers s ! i) = HSent (Some e)"
  have np: "\<not> panicked s" using reachable_inv [OF r] by (simp add: inv_def signals_ok_def)
  have q: "\<not> quit_closed s \<longrightarrow> step (WorkerQuit i) s = None"
    by (simp add: step_def worker_quit_def)
  have q': "\<forall>s'. step (WorkerQuit i) s = Some s' \<longrightarrow> calls s' = calls s \<and> rdb s' = rdb s"
    using worker_quit_step by blast
  from h have "i < length (workers s)" "wpc (workers s ! i) = WSelect"
    "hpc (workers s ! i) = HSent (Some e)" by simp_all
  from worker_result_step [OF this np, of err] q q'
  show "let msg = wmsg (workers s ! i);
                 retryAt = now s + retryDelayFunc (proc s) (Retried msg) e (NewTask (Type msg) (Payload msg))
             in (\<not> quit_closed s \<longrightarrow> step (WorkerQuit i) s = None)
                \<and> (\<forall>s'. step (WorkerQuit i) s = Some s' \<longrightarrow> calls s' = calls s \<and> rdb s' = rdb s)
                \<and> (\<exists>s'. step (WorkerResult i err) s = Some s'
                     \<and> calls s' = calls s @ [StoreCall (if Retried msg \<ge> Retry msg then OpKill msg e
                                                          else OpRetry msg retryAt e) err]
                     \<and> (err = None \<longrightarrow>
                          rdb s' = (if Retried msg \<ge> Retry msg then rdb_Kill msg e (rdb s)
                                    else rdb_Retry msg retryAt e (rdb s)))
                     \<and> (err = None \<and> Retried msg \<ge> Retry msg \<longrightarrow>
                          in_progress (rdb s') = remove1 msg (in_progress (rdb s))
                          \<and> dead_bucket (rdb s') = dead_bucket (rdb s) @ [(msg, e)])
                     \<and> (err = None \<and> Retried msg < Retry msg \<longrightarrow>
                          in_progress (rdb s') = remove1 msg (in_progress (rdb s))
                          \<and> retry_bucket (rdb s') = retry_bucket (rdb s) @ [(msg\<lparr>Retried := Retried msg + 1\<rparr>, retryAt, e)])
                     \<and> (Retry msg = 0 \<and> Retried msg = 0 \<longrightarrow>
                          calls s' = calls s @ [StoreCall (OpKill msg e) err]))"
    unfolding Let_def by (intro conjI) assumption+
next
  fix w e
  assume nq: "\<not> quit_closed s" and w: "w \<in> set (workers s)"
    and l: "left_select w \<and> hpc w = HSent (Some e)"
  from reachable_results_settled [OF r] nq w l have "list_ex (settles w) (calls s)"
    by (auto simp: results_settled_def list_all_iff)
  from settled_call [OF this] l
  show "if Retry (wmsg w) \<le> Retried (wmsg w)
                then \<exists>err. StoreCall (OpKill (wmsg w) e) err \<in> set (calls s)
                else \<exists>retryAt err. StoreCall (OpRetry (wmsg w) retryAt e) err \<in> set (calls s)"
    by simp
qed

theorem retry_or_kill_witness:
  "(\<exists>s s'. run failed_run (init proc0 store0 0) = Some s
      \<and> wpc (workers s ! 0) = WSelect \<and> hpc (workers s ! 0) = HSent (Some ''handler not set'')
      \<and> \<not> quit_closed s \<and> step (WorkerQuit 0) s = None
      \<and> step (WorkerResult 0 None) s = Some s'
      \<and> calls s' = [StoreCall OpRestoreUnfinished None, StoreCall (OpDequeue [''default'']) None,
                    Invoke msg0, StoreCall (OpKill msg0 ''handler not set'') None]
      \<and> dead_bucket (rdb s') = [(msg0, ''handler not set'')] \<and> in_progress (rdb s') = [])
   \<and> (\<exists>s s'. run failed_run (init proc0 store2 0) = Some s
      \<and> wpc (workers s ! 0) = WSelect \<and> hpc (workers s ! 0) = HSent (Some ''handler not set'')
      \<and> step (WorkerResult 0 None) s = Some s'
      \<and> calls s' = [StoreCall OpRestoreUnfinished None, StoreCall (OpDequeue [''default'']) None,
                    Invoke (msg0\<lparr>Retry := 2\<rparr>),
                    StoreCall (OpRetry (msg0\<lparr>Retry := 2\<rparr>) 0 ''handler not set'') None]
      \<and> in_progress (rdb s') = []
      \<and> retry_bucket (rdb s') = [(msg0\<lparr>Retry := 2, Retried := 1\<rparr>, 0, ''handler not set'')])
   \<and> (\<exists>s. run (failed_run @ [WorkerResult 0 None, WorkerRelease 0]) (init proc0 store0 0) = Some s
      \<and> \<not> quit_closed s
      \<and> workers s = [\<lparr>wmsg = msg0, wpc = WExited, hpc = HSent (Some ''handler not set'')\<rparr>]
      \<and> (\<exists>err. StoreCall (OpKill msg0 ''handler not set'') err \<in> set (calls s)))"
proof -
  have first: "\<exists>s s'. run failed_run (init proc0 store0 0) = Some s
      \<and> wpc (workers s ! 0) = WSelect \<and> hpc (workers s ! 0) = HSent (Some ''handler not set'')
      \<and> \<not> quit_closed s \<and> step (WorkerQuit 0) s = None
      \<and> step (WorkerResult 0 None) s = Some s'
      \<and> calls s' = [StoreCall OpRestoreUnfinished None, StoreCall (OpDequeue [''default'']) None,
                    Invoke msg0, StoreCall (OpKill msg0 ''handler not set'') None]
      \<and> dead_bucket (rdb s') = [(msg0, ''handler not set'')] \<and> in_progress (rdb s') = []"
  proof -
    obtain s where r: "run failed_run (init proc0 store0 0) = Some s"
      and h: "0 < length (workers s) \<and> wpc (workers s ! 0) = WSelect
        \<and> hpc (workers s ! 0) = HSent (Some ''handler not set'')"
      and nq: "\<not> quit_closed s"
      and c: "calls s = [StoreCall OpRestoreUnfinished None, StoreCall (OpDequeue [''default'']) None,
                    Invoke msg0]"
      and w: "wmsg (workers s ! 0) = msg0" "in_progress (rdb s) = [msg0]" "dead_bucket (rdb s) = []"
      by (simp add: run_defs failed_run_def)
    have z: "Retry msg0 = 0" "Retried msg0 = 0" by (simp_all add: msg0_def)
    note t = retry_or_kill [OF r, THEN conjunct1, THEN spec, THEN spec, THEN spec, THEN mp, OF h,
        of None]
    from t nq w z c
    obtain s' where "step (WorkerQuit 0) s = None" "step (WorkerResult 0 None) s = Some s'"
      "calls s' = [StoreCall OpRestoreUnfinished None, StoreCall (OpDequeue [''default'']) None,
                      Invoke msg0, StoreCall (OpKill msg0 ''handler not set'') None]"
      "dead_bucket (rdb s') = [(msg0, ''handler not set'')]" "in_progress (rdb s') = []"
      by (auto simp: Let_def)
    with r h nq show ?thesis by blast
  qed
  have second: "\<exists>s s'. run failed_run (init proc0 store2 0) = Some s
      \<and> wpc (workers s ! 0) = WSelect \<and> hpc (workers s ! 0) = HSent (Some ''handler not set'')
      \<and> step (WorkerResult 0 None) s = Some s'
      \<and> calls s' = [StoreCall OpRestoreUnfinished None, StoreCall (OpDequeue [''default'']) None,
                    Invoke (msg0\<lparr>Retry := 2\<rparr>),
                    StoreCall (OpRetry (msg0\<lparr>Retry := 2\<rparr>) 0 ''handler not set'') None]
      \<and> in_progress (rdb s') = []
      \<and> retry_bucket (rdb s') = [(msg0\<lparr>Retry := 2, Retried := 1\<rparr>, 0, ''handler not set'')]"
  proof -
    obtain u where ru: "run failed_run (init proc0 store2 0) = Some u"
      and hu: "0 < length (workers u) \<and> wpc (workers u ! 0) = WSelect
        \<and> hpc (workers u ! 0) = HSent (Some ''handler not set'')"
      and cu: "calls u = [StoreCall OpRestoreUnfinished None, StoreCall (OpDequeue [''default'']) None,
                    Invoke (msg0\<lparr>Retry := 2\<rparr>)]"
      and wu: "wmsg (workers u ! 0) = msg0\<lparr>Retry := 2\<rparr>" "in_progress (rdb u) = [msg0\<lparr>Retry := 2\<rparr>]"
        "retry_bucket (rdb u) = []" "now u = 0" "retryDelayFunc (proc u) = no_delay"
      by (simp add: run_defs failed_run_def store2_def)
    have z: "Retried msg0 = 0" by (simp add: msg0_def)
    note t = retry_or_kill [OF ru, THEN conjunct1, THEN spec, THEN spec, THEN spec, THEN mp, OF hu,
        of None]
    from t wu z cu
    obtain u' where "step (WorkerResult 0 None) u = Some u'"
      "calls u' = [StoreCall OpRestoreUnfinished None, StoreCall (OpDequeue [''default'']) None,
                      Invoke (msg0\<lparr>Retry := 2\<rparr>),
                      StoreCall (OpRetry (msg0\<lparr>Retry := 2\<rparr>) 0 ''handler not set'') None]"
      "in_progress (rdb u') = []"
      "retry_bucket (rdb u') = [(msg0\<lparr>Retry := 2, Retried := 1\<rparr>, 0, ''handler not set'')]"
      by (auto simp: Let_def no_delay_def)
    with ru hu show ?thesis by blast
  qed
  have third: "\<exists>s. run (failed_run @ [WorkerResult 0 None, WorkerRelease 0]) (init proc0 store0 0) = Some s
      \<and> \<not> quit_closed s
      \<and> workers s = [\<lparr>wmsg = msg0, wpc = WExited, hpc = HSent (Some ''handler not set'')\<rparr>]
      \<and> (\<exists>err. StoreCall (OpKill msg0 ''handler not set'') err \<in> set (calls s))"
  proof -
    obtain v where rv: "run (failed_run @ [WorkerResult 0 None, WorkerRelease 0]) (init proc0 store0 0) = Some v"
      and nqv: "\<not> quit_closed v"
      and wv: "workers v = [\<lparr>wmsg = msg0, wpc = WExited, hpc = HSent (Some ''handler not set'')\<rparr>]"
      by (simp add: run_defs failed_run_def)
    let ?w = "\<lparr>wmsg = msg0, wpc = WExited, hpc = HSent (Some ''handler not set'')\<rparr>"
    have m: "?w \<in> set (workers v)" by (simp add: wv)
    have l: "left_select ?w \<and> hpc ?w = HSent (Some ''handler not set'')"
      by (simp add: left_select_def)
    have z: "Retry (wmsg ?w) \<le> Retried (wmsg ?w)" "wmsg ?w = msg0" by (simp_all add: msg0_def)
    note t = retry_or_kill [OF rv, THEN conjunct2, THEN mp, OF nqv, THEN bspec, OF m, THEN spec,
        THEN mp, OF l]
    from t z have "\<exists>err. StoreCall (OpKill msg0 ''handler not set'') err \<in> set (calls v)"
      by (simp only: if_True)
    with rv nqv wv show ?thesis by blast
  qed
  from first second third show ?thesis by blast
qed

text \<open>
  Claim C1 without the exit through \<open>quit\<close>: the handler of the only task returns a failure,
  \<open>terminate\<close> is called, and its deadline passes before the worker has taken the result.
  The worker leaves through \<open>quit\<close>; neither \<open>Kill\<close> nor \<open>Retry\<close> is called for the message,
  whose \<open>Retry\<close> is 0, and \<open>RestoreUnfinished\<close> puts it back in its queue.
\<close>

theorem retry_or_kill_counterexample:
  "map_option calls (run quit_run (init proc0 store0 0))
     = Some [StoreCall OpRestoreUnfinished None, StoreCall (OpDequeue [''default'']) None,
             Invoke msg0, StoreCall OpRestoreUnfinished None]
   \<and> map_option workers (run quit_run (init proc0 store0 0))
     = Some [\<lparr>wmsg = msg0, wpc = WExited, hpc = HSent (Some ''handler not set'')\<rparr>]
   \<and> map_option (\<lambda>s. (Retry msg0, Retried msg0, dead_bucket (rdb s), retry_bucket (rdb s), active (rdb s) ''default'', terminator s))
        (run quit_run (init proc0 store0 0))
     = Some (0, 0, [], [], [msg0], TReturned)"
  by (simp add: run_defs quit_run_def)

text \<open>
  \<open>perform\<close> on a handler that returns, and on a handler that panics with a value other
  than \<open>nil\<close>: the value \<open>42\<close> gives the error \<open>panic: 42\<close>.
\<close>

lemma perform_returns: "h task = Returns err \<Longrightarrow> perform h task = err"
  by (simp add: perform_def)

lemma perform_recovers:
  "h task = Panics x \<Longrightarrow> x \<noteq> PNil \<Longrightarrow> perform h task = Some (''panic: '' @ fmt_v x)"
  by (simp add: perform_def)

lemma decimal_42: "decimal 42 = ''42''"
  by (simp add: decimal.simps [of 42] decimal.simps [of 4] digit_char_def)

lemma perform_panic_42: "perform (\<lambda>t. Panics (PInt 42)) task = Some ''panic: 42''"
  by (simp add: perform_def fmt_int_def decimal_42 digit_char_def)

text \<open>
  Claim C7 asks for an error after every panic of the handler, as the comment of
  \<open>perform\<close> does. After \<open>panic(nil)\<close> the test \<open>x != nil\<close> fails, \<open>perform\<close> returns
  \<open>nil\<close>, and the worker marks the task as done.
\<close>

theorem perform_panic_nil:
  "perform (\<lambda>t. Panics PNil) task = None
   \<and> finish msg (perform (\<lambda>t. Panics PNil) (NewTask (Type msg) (Payload msg))) err s
       = markAsDone msg err s"
  by (simp add: perform_def finish_def)

end
